theory Spec2Isabelle
  imports Main "HOL-Library.Word"
begin

unbundle bit_operations_syntax

section \<open>Bytes and JavaScript's 32-bit integer operators\<close>

text \<open>
  A \<^verbatim>\<open>Uint8Array\<close> is a list of bytes. JavaScript's bit operators \<^verbatim>\<open>&\<close>, \<^verbatim>\<open>|\<close>,
  \<^verbatim>\<open><<\<close> and \<^verbatim>\<open>>>\<close> convert their operands to 32-bit integers, compute on those and give
  a signed 32-bit result; a shift takes its count modulo 32. Numbers outside the bit
  operators are mathematical integers here: every value the program computes is an
  integer far below \<open>2 ^ 53\<close>. (The one value an \<open>int\<close> does not tell apart is the negative
  zero that \<^verbatim>\<open>-result\<close> gives for \<^verbatim>\<open>result = 0\<close>; it compares and adds as zero.)
\<close>

type_synonym byte = "8 word"
type_synonym int32 = "32 word"

text \<open>\<^verbatim>\<open>bytes[i]\<close> as an operand of a bit operator: an index past the end reads
  \<^verbatim>\<open>undefined\<close>, which the operator turns into 0.\<close>

definition at :: "byte list \<Rightarrow> nat \<Rightarrow> int32" where
  "at bytes i = (if i < length bytes then ucast (bytes ! i) else 0)"

text \<open>\<^verbatim>\<open>x << n\<close> and \<^verbatim>\<open>x >> n\<close> (sign-propagating), with the count taken modulo 32.\<close>

definition shl :: "int32 \<Rightarrow> int \<Rightarrow> int32" where
  "shl x n = push_bit (nat (n mod 32)) x"

definition sar :: "int32 \<Rightarrow> int \<Rightarrow> int32" where
  "sar x n = signed_drop_bit (nat (n mod 32)) x"

section \<open>getInt64\<close>

text \<open>
  \<^verbatim>\<open>
  function getInt64 (bytes, offset = 0) {
    const result =
      (bytes[offset + 0] & 0xff) << (0 * 8) |
      ...
      (bytes[offset + 6] & 0xff) << (6 * 8) |
      (bytes[offset + 7] & 0x7f) << (7 * 8);
    const signed = bytes[offset + 7] & 0x80 != 0;
    return signed ? -result : result;
  }
  \<close>
  \<^verbatim>\<open><<\<close> binds tighter than \<^verbatim>\<open>|\<close>, and \<^verbatim>\<open>!=\<close> binds tighter than \<^verbatim>\<open>&\<close>: the last
  line but one is \<^verbatim>\<open>bytes[offset + 7] & (0x80 != 0)\<close>, and the boolean is the number 1
  under \<^verbatim>\<open>&\<close>.
\<close>

definition getInt64 :: "byte list \<Rightarrow> nat \<Rightarrow> int" where
  "getInt64 bytes offset =
     (let result =
            shl (at bytes (offset + 0) AND 0xff) (0 * 8) OR
            shl (at bytes (offset + 1) AND 0xff) (1 * 8) OR
            shl (at bytes (offset + 2) AND 0xff) (2 * 8) OR
            shl (at bytes (offset + 3) AND 0xff) (3 * 8) OR
            shl (at bytes (offset + 4) AND 0xff) (4 * 8) OR
            shl (at bytes (offset + 5) AND 0xff) (5 * 8) OR
            shl (at bytes (offset + 6) AND 0xff) (6 * 8) OR
            shl (at bytes (offset + 7) AND 0x7f) (7 * 8);
          signed = at bytes (offset + 7) AND of_bool ((0x80 :: int) \<noteq> 0)
      in if signed \<noteq> 0 then - sint result else sint result)"

section \<open>emulateBYOB\<close>

text \<open>
  A chunk-style reader (\<^verbatim>\<open>read()\<close> without a destination) is the list of the chunks it
  has yet to hand out; once the list is empty every read reports \<^verbatim>\<open>done\<close>.
\<close>

definition chunkRead :: "byte list list \<Rightarrow> byte list option \<times> byte list list" where
  "chunkRead chunks = (case chunks of [] \<Rightarrow> (None, []) | c # cs \<Rightarrow> (Some c, cs))"

text \<open>
  \<^verbatim>\<open>
  function emulateBYOB (streamReader) {
    if (streamReader.read.length === 1) { return streamReader; }
    let buffer = null;
    let offset = 0;
    async function read (destination) {
      if (!buffer || buffer.length === offset) {
        let done;
        ({ value : buffer, done } = await streamReader.read());
        if (done) { return { done, value: destination.subarray(0, 0) }; }
        offset = 0;
      }
      const copyAmount = Math.min(destination.length, buffer.length - offset);
      destination.set(buffer.subarray(offset, offset + copyAmount));
      offset += copyAmount;
      const value = destination.subarray(0, copyAmount);
      return { done: false, value };
    }
    return { read };
  }
  \<close>
  The closure's variables are the record: the wrapped reader, the pending chunk
  (\<open>None\<close> for \<^verbatim>\<open>null\<close> and for the \<^verbatim>\<open>undefined\<close> a finished upstream hands back) and the
  offset into it. A destination is given by its length; a read returns the bytes it wrote
  at the start of the destination, or \<open>None\<close> for \<^verbatim>\<open>done\<close>.
\<close>

record byob =
  streamReader :: "byte list list"
  buffer :: "byte list option"
  offset :: nat

definition emulateBYOB :: "byte list list \<Rightarrow> byob" where
  "emulateBYOB chunks = \<lparr>streamReader = chunks, buffer = None, offset = 0\<rparr>"

definition copyOut :: "byob \<Rightarrow> byte list \<Rightarrow> nat \<Rightarrow> byte list option \<times> byob" where
  "copyOut r b destinationLength =
     (let copyAmount = min destinationLength (length b - offset r)
      in (Some (take copyAmount (drop (offset r) b)), r\<lparr>offset := offset r + copyAmount\<rparr>))"

definition refill :: "byob \<Rightarrow> nat \<Rightarrow> byte list option \<times> byob" where
  "refill r destinationLength =
     (case chunkRead (streamReader r) of
        (None, rest) \<Rightarrow> (None, r\<lparr>streamReader := rest, buffer := None\<rparr>)
      | (Some c, rest) \<Rightarrow>
          copyOut (r\<lparr>streamReader := rest, buffer := Some c, offset := 0\<rparr>) c destinationLength)"

definition emulateBYOB_read :: "byob \<Rightarrow> nat \<Rightarrow> byte list option \<times> byob" where
  "emulateBYOB_read r destinationLength =
     (case buffer r of
        None \<Rightarrow> refill r destinationLength
      | Some b \<Rightarrow>
          if length b = offset r then refill r destinationLength
          else copyOut r b destinationLength)"

text \<open>The offset never passes the end of the pending chunk: it starts at 0 and grows by
  at most what is left.\<close>

definition byob_ok :: "byob \<Rightarrow> bool" where
  "byob_ok r = (case buffer r of None \<Rightarrow> True | Some b \<Rightarrow> offset r \<le> length b)"

text \<open>The bytes a reader has yet to deliver: the rest of the pending chunk, then the
  chunks upstream.\<close>

definition remaining :: "byob \<Rightarrow> byte list" where
  "remaining r =
     (case buffer r of None \<Rightarrow> [] | Some b \<Rightarrow> drop (offset r) b) @ concat (streamReader r)"

text \<open>What is left of the pending chunk.\<close>

definition pendingChunk :: "byob \<Rightarrow> byte list" where
  "pendingChunk r = (case buffer r of None \<Rightarrow> [] | Some b \<Rightarrow> drop (offset r) b)"

section \<open>The bit reader\<close>

text \<open>
  \<^verbatim>\<open>
  function bitReaderFromStreamReader (streamReader) {
    const BITMASK = new Uint8Array([0, 0x01, 0x03, 0x07, 0x0F, 0x1F, 0x3F, 0x7F, 0xFF]);
    const buffer = new Uint8Array(1);
    let cursor = -1;
    return async function readBits (n) {
      let result = 0;
      while (n > 0){
        if (cursor === -1) {
          const { value : byteContainer, done } = await streamReader.read(buffer);
          if (done || byteContainer.byteLength === 0) { return -1; }
          cursor = 0;
        }
        const left = 8 - cursor;
        const currentByte = buffer[0];
        if (n >= left) {
          result <<= left;
          result |= (BITMASK[left] & currentByte);
          cursor = -1;
          n -= left;
        } else {
          result <<= n;
          result |= ((currentByte & (BITMASK[n] << (8 - n - cursor))) >> (8 - n - cursor));
          cursor += n;
          n = 0;
        }
      }
      return result;
    };
  }
  \<close>
  The closure's state is the upstream reader, the one byte of \<^verbatim>\<open>buffer\<close> and the cursor.
  The upstream reader is read into the one-byte buffer, so its destination has length 1;
  it is a reader as \<open>emulateBYOB\<close> makes them (in the program: the patch reader, or the
  reader over the control and diff arrays). \<^verbatim>\<open>BITMASK[i]\<close> outside the table is
  \<^verbatim>\<open>undefined\<close>, 0 under \<^verbatim>\<open>&\<close>. \<open>fetchByte\<close> is the \<^verbatim>\<open>if (cursor === -1)\<close> block: \<open>Inl\<close> when
  it returns \<open>-1\<close> from \<^verbatim>\<open>readBits\<close>, \<open>Inr\<close> when the loop body goes on. The loop may in
  principle run forever (for a cursor outside \<open>-1..7\<close>), so it is a partial function and
  its termination is part of what is proved below.
\<close>

record bitReader =
  source :: byob
  byteBuffer :: byte
  cursor :: int

definition BITMASK :: "int \<Rightarrow> int32" where
  "BITMASK i =
     (if 0 \<le> i \<and> i < 9 then [0, 0x01, 0x03, 0x07, 0x0F, 0x1F, 0x3F, 0x7F, 0xFF] ! nat i else 0)"

definition bitReaderFromStreamReader :: "byob \<Rightarrow> bitReader" where
  "bitReaderFromStreamReader r = \<lparr>source = r, byteBuffer = 0, cursor = - 1\<rparr>"

definition fetchByte :: "bitReader \<Rightarrow> bitReader + bitReader" where
  "fetchByte br =
     (if cursor br = - 1 then
        (case emulateBYOB_read (source br) 1 of
           (None, r) \<Rightarrow> Inl (br\<lparr>source := r\<rparr>)
         | (Some byteContainer, r) \<Rightarrow>
             if length byteContainer = 0 then Inl (br\<lparr>source := r\<rparr>)
             else Inr (br\<lparr>source := r, byteBuffer := hd byteContainer, cursor := 0\<rparr>))
      else Inr br)"

partial_function (option) readBits_loop :: "bitReader \<Rightarrow> int \<Rightarrow> int32 \<Rightarrow> (int \<times> bitReader) option" where
  "readBits_loop br n result =
     (if n > 0 then
        (case fetchByte br of
           Inl br' \<Rightarrow> Some (- 1, br')
         | Inr br' \<Rightarrow>
             (let left = 8 - cursor br'; currentByte = ucast (byteBuffer br') in
              if n \<ge> left then
                readBits_loop (br'\<lparr>cursor := - 1\<rparr>) (n - left)
                  (shl result left OR (BITMASK left AND currentByte))
              else
                readBits_loop (br'\<lparr>cursor := cursor br' + n\<rparr>) 0
                  (shl result n OR
                   sar (currentByte AND shl (BITMASK n) (8 - n - cursor br')) (8 - n - cursor br'))))
      else Some (sint result, br))"

definition readBits :: "bitReader \<Rightarrow> int \<Rightarrow> (int \<times> bitReader) option" where
  "readBits br n = readBits_loop br n 0"

definition bitsOf :: "byte \<Rightarrow> bool list" where
  "bitsOf b = map (bit b) (rev [0..<8])"

definition bitsValue :: "bool list \<Rightarrow> nat" where
  "bitsValue bs = foldl (\<lambda>acc x. 2 * acc + of_bool x) 0 bs"

definition pendingBits :: "bitReader \<Rightarrow> bool list" where
  "pendingBits br = (if cursor br = - 1 then [] else drop (nat (cursor br)) (bitsOf (byteBuffer br)))"

definition cursor_ok :: "bitReader \<Rightarrow> bool" where
  "cursor_ok br = (- 1 \<le> cursor br \<and> cursor br \<le> 7)"

definition visible :: "byob \<Rightarrow> byte list" where
  "visible r = pendingChunk r @ concat (takeWhile (\<lambda>c. c \<noteq> []) (streamReader r))"

text \<open>
  The vocabulary of the statements: the bits of a byte, most significant first; the number a
  bit sequence spells when earlier bits are shifted left ahead of later ones; the bits
  of the buffered byte that are not yet consumed; the bytes upstream delivers before its
  first read that is \<^verbatim>\<open>done\<close> or empty (\<open>visible\<close>), and the bits the reader can deliver
  before that read (\<open>streamBits\<close>); the bits of everything upstream holds (\<open>upcoming\<close>).
  \<open>toInt32\<close> is the signed 32-bit reading of a number. \<open>afterEmpty br later\<close> is the reader
  \<open>br\<close> whose upstream, instead of finishing, hands out an empty chunk and then the chunks
  \<open>later\<close>.
\<close>

definition streamBits :: "bitReader \<Rightarrow> bool list" where
  "streamBits br = pendingBits br @ concat (map bitsOf (visible (source br)))"

definition toInt32 :: "nat \<Rightarrow> int" where
  "toInt32 v = sint (word_of_nat v :: int32)"

definition upcoming :: "bitReader \<Rightarrow> bool list" where
  "upcoming br = pendingBits br @ concat (map bitsOf (remaining (source br)))"

definition afterEmpty :: "bitReader \<Rightarrow> byte list list \<Rightarrow> bitReader" where
  "afterEmpty br later =
     br\<lparr>source := (source br)\<lparr>streamReader := streamReader (source br) @ [] # later\<rparr>\<rparr>"

section \<open>The patch engine\<close>

text \<open>
  The engine throws JavaScript errors that carry a message: \<^verbatim>\<open>new Error('Corrupt patch')\<close>
  in \<^verbatim>\<open>bspatch\<close> and \<^verbatim>\<open>new Error('Unexpected EOF')\<close> in \<^verbatim>\<open>read\<close>. There is no other error
  value in the source.
\<close>

datatype error = Error string

definition CorruptPatch :: error where "CorruptPatch = Error ''Corrupt patch''"

definition UnexpectedEOF :: error where "UnexpectedEOF = Error ''Unexpected EOF''"

definition MAGIC :: string where "MAGIC = ''BSDIFF40''"

definition BUFFER_SIZE :: nat where "BUFFER_SIZE = 4096"

text \<open>
  \<^verbatim>\<open>
  function add (left, right, offset, end) {
    for (let i = offset; i < end; i++) { left[i] += right[i]; }
    return left;
  }
  function getAsciiString (bytes, offset, end) {
    let string = '';
    for (let i = offset; i < end; i++) { string += String.fromCharCode(bytes[i]); }
    return string;
  }
  \<close>
  Arithmetic on the elements of a \<^verbatim>\<open>Uint8Array\<close> wraps modulo 256, as addition on \<open>byte\<close>
  does. A write past the end of a typed array is dropped (as \<open>list_update\<close> does), and
  \<^verbatim>\<open>right[i]\<close> past the end is \<^verbatim>\<open>undefined\<close>, which makes the sum \<^verbatim>\<open>NaN\<close> and the stored byte 0;
  \<^verbatim>\<open>String.fromCharCode(undefined)\<close> is the character with code 0.
\<close>

definition getAsciiString :: "byte list \<Rightarrow> nat \<Rightarrow> nat \<Rightarrow> string" where
  "getAsciiString bytes offs stop =
     map (\<lambda>i. if i < length bytes then char_of (unat (bytes ! i)) else CHR 0x00) [offs..<stop]"

definition add :: "byte list \<Rightarrow> byte list \<Rightarrow> nat \<Rightarrow> nat \<Rightarrow> byte list" where
  "add left right offs stop =
     foldl (\<lambda>l i. l[i := (if i < length right then l ! i + right ! i else 0)]) left [offs..<stop]"

text \<open>
  \<^verbatim>\<open>
  async function read (streamReader, buffer, offset, end) {
    if (offset >= end) { return; }
    const destination = buffer.subarray(offset, end);
    const { value: newView, done } = await streamReader.read(destination);
    if (done) { throw new Error('Unexpected EOF'); }
    return read(streamReader, buffer, offset + newView.byteLength, end);
  }
  \<close>
  \<^verbatim>\<open>read\<close> fills \<^verbatim>\<open>buffer\<close> in place and moves the reader on; the model returns both.
  \<^verbatim>\<open>subarray\<close> clamps its bounds to the array, so the destination handed to the reader has
  the length \<open>subarrayLength\<close>; the reader writes at the start of the destination, that is
  at \<open>offs\<close> of the buffer (\<open>setBytes\<close>). The recursion goes on for as long as the reader
  delivers without finishing: it may not end (a reader that keeps returning no bytes), so
  \<open>read\<close> is a partial function, and that it returns is proved below for the calls the
  engine makes.
\<close>

definition subarrayLength :: "byte list \<Rightarrow> nat \<Rightarrow> nat \<Rightarrow> nat" where
  "subarrayLength buf offs stop = min stop (length buf) - min offs (length buf)"

definition setBytes :: "byte list \<Rightarrow> nat \<Rightarrow> byte list \<Rightarrow> byte list" where
  "setBytes buf offs bytes = take offs buf @ bytes @ drop (offs + length bytes) buf"

partial_function (option) read :: "byob \<Rightarrow> byte list \<Rightarrow> nat \<Rightarrow> nat \<Rightarrow> (error + byte list \<times> byob) option" where
  "read r buf offs stop =
     (if offs \<ge> stop then Some (Inr (buf, r))
      else (case emulateBYOB_read r (subarrayLength buf offs stop) of
              (None, r') \<Rightarrow> Some (Inl UnexpectedEOF)
            | (Some newView, r') \<Rightarrow> read r' (setBytes buf offs newView) (offs + length newView) stop))"

text \<open>
  \<^verbatim>\<open>
  async function readControlHeader (streamReader) {
    const data = new Uint8Array(24);
    await read(streamReader, data, 0, data.length);
    const addSize = getInt64(data, 0 * 8);
    const copySize = getInt64(data, 1 * 8);
    const seekSize = getInt64(data, 2 * 8);
    return { addSize, copySize, seekSize };
  }
  async function readHeader (streamReader) {
    const data = new Uint8Array(32);
    await read(streamReader, data, 0, data.length);
    const magic = getAsciiString(data, 0, 8);
    const controlSize = getInt64(data, 1 * 8);
    const diffSize = getInt64(data, 2 * 8);
    const newSize = getInt64(data, 3 * 8);
    return { magic, controlSize, diffSize, newSize };
  }
  \<close>
\<close>

record controlHeader =
  addSize :: int
  copySize :: int
  seekSize :: int

definition readControlHeader :: "byob \<Rightarrow> (error + controlHeader \<times> byob) option" where
  "readControlHeader r =
     (case read r (replicate 24 0) 0 24 of
        None \<Rightarrow> None
      | Some (Inl e) \<Rightarrow> Some (Inl e)
      | Some (Inr (data, r')) \<Rightarrow>
          Some (Inr (\<lparr>addSize = getInt64 data (0 * 8), copySize = getInt64 data (1 * 8),
                      seekSize = getInt64 data (2 * 8)\<rparr>, r')))"

record header =
  magic :: string
  controlSize :: int
  diffSize :: int
  newSize :: int

definition readHeader :: "byob \<Rightarrow> (error + header \<times> byob) option" where
  "readHeader r =
     (case read r (replicate 32 0) 0 32 of
        None \<Rightarrow> None
      | Some (Inl e) \<Rightarrow> Some (Inl e)
      | Some (Inr (data, r')) \<Rightarrow>
          Some (Inr (\<lparr>magic = getAsciiString data 0 8, controlSize = getInt64 data (1 * 8),
                      diffSize = getInt64 data (2 * 8), newSize = getInt64 data (3 * 8)\<rparr>, r')))"

text \<open>
  \<^verbatim>\<open>
  function * bspatch (oldReader, patchReader) {
    oldReader = emulateBYOB(oldReader);
    patchReader = emulateBYOB(patchReader);
    const { magic, controlSize, diffSize, newSize } = yield readHeader(patchReader);
    if (magic != MAGIC || controlSize < 0 || diffSize < 0 || newSize < 0) {
      throw new Error('Corrupt patch');
    }
    const control = new Uint8Array(controlSize);
    const controlReader = getBYOBReader(bzip2Stream(typedArrayStreamReader(control)));
    yield read(patchReader, control, 0, controlSize);
    const diff = new Uint8Array(diffSize);
    const diffReader = getBYOBReader(bzip2Stream(typedArrayStreamReader(diff)));
    yield read(patchReader, diff, 0, diffSize);
    const extraReader = getBYOBReader(bzip2Stream(patchReader));
    const temp1 = new Uint8Array(BUFFER_SIZE);
    const temp2 = new Uint8Array(BUFFER_SIZE);
    let newPos = 0;
    let oldPos = 0;
    while (newPos < newSize) {
      const { addSize, copySize, seekSize } = yield readControlHeader(controlReader);
      if (newPos + addSize > newSize || addSize < 0) { throw new Error('Corrupt patch'); }
      for (let i = 0; i < addSize; i += BUFFER_SIZE) {
        const readAmount = Math.min(BUFFER_SIZE, addSize - i);
        yield Promise.all([read(oldReader, temp1, 0, readAmount),
                           read(diffReader, temp2, 0, readAmount)]);
        add(temp1, temp2, 0, readAmount);
        newPos += readAmount;
        oldPos += readAmount;
        yield temp1.slice(0, readAmount);
      }
      if (newPos + copySize > newSize || copySize < 0) { throw new Error('Corrupt patch'); }
      for (let i = 0; i < copySize; i += BUFFER_SIZE) {
        const readAmount = Math.min(BUFFER_SIZE, copySize - i);
        yield read(extraReader, temp1, 0, readAmount);
        newPos += readAmount;
        yield temp1.slice(0, readAmount);
      }
      if (seekSize < 0) { throw new Error('Corrupt patch'); }
      for (let i = 0; i < seekSize; i += BUFFER_SIZE) {
        const readAmount = Math.min(BUFFER_SIZE, seekSize - i);
        yield read(oldReader, temp1, 0, readAmount);
        oldPos += readAmount;
      }
    }
  }
  \<close>
  The generator's variables are the record \<open>state\<close>; the byte arrays it yields (the promises
  it yields are awaited by the adapter and are not output) are collected in \<open>yielded\<close>, in
  order. A run that throws gives a \<open>failure\<close>: the error, and \<^verbatim>\<open>newPos\<close> and the arrays yielded
  up to the throw, which is what a consumer has received by then. The buffer size is a
  parameter of the model, \<open>BUFFER_SIZE\<close> in the program; with a buffer size of 0 the three
  \<^verbatim>\<open>for\<close> loops never end, so they are partial functions, as is the \<^verbatim>\<open>while\<close> loop.
  \<^verbatim>\<open>Promise.all\<close> rejects as soon as one of the two reads rejects and settles when both have.

  The readers. The old file and the patch are chunk-style readers, given by their chunks
  and wrapped by \<open>emulateBYOB\<close>. The decompressor \<^verbatim>\<open>bzip2Stream\<close> is built on the package
  \<^verbatim>\<open>bzip2-async\<close>, which is not part of this repository: it is a parameter, a function from
  the reader it consumes to the blocks it produces. \<^verbatim>\<open>getBYOBReader\<close> turns a stream into a
  reader that fills a destination from the pending block, as \<open>emulateBYOB\<close> does (it is
  \<^verbatim>\<open>emulateBYOB(stream.getReader())\<close> when the stream has no reader of its own for that, and
  the adapter's \<^verbatim>\<open>pull\<close> copies \<^verbatim>\<open>Math.min(prevSlice.length - cursor, view.length)\<close> bytes in the
  same way when it has). The arrays \<^verbatim>\<open>control\<close> and \<^verbatim>\<open>diff\<close> are read by their decompressors
  only inside the loop, after they have been filled, so the model builds those readers
  from the filled arrays.
\<close>

record state =
  oldReader :: byob
  controlReader :: byob
  diffReader :: byob
  extraReader :: byob
  temp1 :: "byte list"
  temp2 :: "byte list"
  newPos :: int
  oldPos :: int
  yielded :: "byte list list"

record failure =
  thrown :: error
  newPosThen :: int
  yieldedThen :: "byte list list"

definition failed :: "error \<Rightarrow> state \<Rightarrow> failure" where
  "failed e st = \<lparr>thrown = e, newPosThen = newPos st, yieldedThen = yielded st\<rparr>"

partial_function (option) addLoop :: "nat \<Rightarrow> int \<Rightarrow> int \<Rightarrow> state \<Rightarrow> (failure + state) option" where
  "addLoop bufferSize n i st =
     (if i < n then
        (let readAmount = min (int bufferSize) (n - i) in
         case (read (oldReader st) (temp1 st) 0 (nat readAmount),
               read (diffReader st) (temp2 st) 0 (nat readAmount)) of
           (Some (Inl e), _) \<Rightarrow> Some (Inl (failed e st))
         | (_, Some (Inl e)) \<Rightarrow> Some (Inl (failed e st))
         | (Some (Inr (t1, old')), Some (Inr (t2, diff'))) \<Rightarrow>
             (let t1' = add t1 t2 0 (nat readAmount) in
              addLoop bufferSize n (i + int bufferSize)
                (st\<lparr>oldReader := old', diffReader := diff', temp1 := t1', temp2 := t2,
                    newPos := newPos st + readAmount, oldPos := oldPos st + readAmount,
                    yielded := yielded st @ [take (nat readAmount) t1']\<rparr>))
         | _ \<Rightarrow> None)
      else Some (Inr st))"

partial_function (option) copyLoop :: "nat \<Rightarrow> int \<Rightarrow> int \<Rightarrow> state \<Rightarrow> (failure + state) option" where
  "copyLoop bufferSize n i st =
     (if i < n then
        (let readAmount = min (int bufferSize) (n - i) in
         case read (extraReader st) (temp1 st) 0 (nat readAmount) of
           None \<Rightarrow> None
         | Some (Inl e) \<Rightarrow> Some (Inl (failed e st))
         | Some (Inr (t1, extra')) \<Rightarrow>
             copyLoop bufferSize n (i + int bufferSize)
               (st\<lparr>extraReader := extra', temp1 := t1, newPos := newPos st + readAmount,
                   yielded := yielded st @ [take (nat readAmount) t1]\<rparr>))
      else Some (Inr st))"

partial_function (option) seekLoop :: "nat \<Rightarrow> int \<Rightarrow> int \<Rightarrow> state \<Rightarrow> (failure + state) option" where
  "seekLoop bufferSize n i st =
     (if i < n then
        (let readAmount = min (int bufferSize) (n - i) in
         case read (oldReader st) (temp1 st) 0 (nat readAmount) of
           None \<Rightarrow> None
         | Some (Inl e) \<Rightarrow> Some (Inl (failed e st))
         | Some (Inr (t1, old')) \<Rightarrow>
             seekLoop bufferSize n (i + int bufferSize)
               (st\<lparr>oldReader := old', temp1 := t1, oldPos := oldPos st + readAmount\<rparr>))
      else Some (Inr st))"

definition iteration :: "nat \<Rightarrow> int \<Rightarrow> state \<Rightarrow> (failure + state) option" where
  "iteration bufferSize newSize' st =
     (case readControlHeader (controlReader st) of
        None \<Rightarrow> None
      | Some (Inl e) \<Rightarrow> Some (Inl (failed e st))
      | Some (Inr (c, control')) \<Rightarrow>
          (let st0 = st\<lparr>controlReader := control'\<rparr> in
           if newPos st0 + addSize c > newSize' \<or> addSize c < 0 then Some (Inl (failed CorruptPatch st0))
           else
             (case addLoop bufferSize (addSize c) 0 st0 of
                None \<Rightarrow> None
              | Some (Inl f) \<Rightarrow> Some (Inl f)
              | Some (Inr st1) \<Rightarrow>
                  if newPos st1 + copySize c > newSize' \<or> copySize c < 0
                  then Some (Inl (failed CorruptPatch st1))
                  else
                    (case copyLoop bufferSize (copySize c) 0 st1 of
                       None \<Rightarrow> None
                     | Some (Inl f) \<Rightarrow> Some (Inl f)
                     | Some (Inr st2) \<Rightarrow>
                         if seekSize c < 0 then Some (Inl (failed CorruptPatch st2))
                         else seekLoop bufferSize (seekSize c) 0 st2))))"

partial_function (option) patchLoop :: "nat \<Rightarrow> int \<Rightarrow> state \<Rightarrow> (failure + state) option" where
  "patchLoop bufferSize newSize' st =
     (if newPos st < newSize' then
        (case iteration bufferSize newSize' st of
           None \<Rightarrow> None
         | Some (Inl f) \<Rightarrow> Some (Inl f)
         | Some (Inr st') \<Rightarrow> patchLoop bufferSize newSize' st')
      else Some (Inr st))"

definition getBYOBReader :: "byte list list \<Rightarrow> byob" where
  "getBYOBReader stream = emulateBYOB stream"

definition typedArrayStreamReader :: "byte list \<Rightarrow> byob" where
  "typedArrayStreamReader typedArray = getBYOBReader [typedArray]"

definition bspatch ::
  "nat \<Rightarrow> (byob \<Rightarrow> byte list list) \<Rightarrow> byte list list \<Rightarrow> byte list list \<Rightarrow>
   (failure + byte list list) option" where
  "bspatch bufferSize bzip2Stream old patch =
     (let oldR = emulateBYOB old; patchR = emulateBYOB patch;
          none = \<lparr>thrown = CorruptPatch, newPosThen = 0, yieldedThen = []\<rparr> in
      case readHeader patchR of
        None \<Rightarrow> None
      | Some (Inl e) \<Rightarrow> Some (Inl (none\<lparr>thrown := e\<rparr>))
      | Some (Inr (h, patchR1)) \<Rightarrow>
          if magic h \<noteq> MAGIC \<or> controlSize h < 0 \<or> diffSize h < 0 \<or> newSize h < 0
          then Some (Inl none)
          else
            (case read patchR1 (replicate (nat (controlSize h)) 0) 0 (nat (controlSize h)) of
               None \<Rightarrow> None
             | Some (Inl e) \<Rightarrow> Some (Inl (none\<lparr>thrown := e\<rparr>))
             | Some (Inr (control, patchR2)) \<Rightarrow>
                 (case read patchR2 (replicate (nat (diffSize h)) 0) 0 (nat (diffSize h)) of
                    None \<Rightarrow> None
                  | Some (Inl e) \<Rightarrow> Some (Inl (none\<lparr>thrown := e\<rparr>))
                  | Some (Inr (diff, patchR3)) \<Rightarrow>
                      (case patchLoop bufferSize (newSize h)
                              \<lparr>oldReader = oldR,
                               controlReader = getBYOBReader (bzip2Stream (typedArrayStreamReader control)),
                               diffReader = getBYOBReader (bzip2Stream (typedArrayStreamReader diff)),
                               extraReader = getBYOBReader (bzip2Stream patchR3),
                               temp1 = replicate bufferSize 0, temp2 = replicate bufferSize 0,
                               newPos = 0, oldPos = 0, yielded = []\<rparr> of
                         None \<Rightarrow> None
                       | Some (Inl f) \<Rightarrow> Some (Inl f)
                       | Some (Inr st) \<Rightarrow> Some (Inr (yielded st))))))"

section \<open>Vocabulary of the statements about the engine\<close>

text \<open>
  \<open>fuel\<close> bounds the number of reads a reader can still answer without finishing. The
  \<open>view\<close> of a state is what the rest of a run depends on: the bytes each of the four readers
  has yet to deliver, the two positions and the bytes yielded so far. \<open>state_ok\<close> is the
  invariant of the readers and of the two scratch buffers. \<open>added\<close>, \<open>copied\<close> and \<open>sought\<close>
  are the three phases on views, \<open>decodeControl\<close> the decoding of a control record from its
  24 bytes, \<open>turn\<close> one turn of the \<^verbatim>\<open>while\<close> loop on views, and \<open>seen\<close> the view of a result.
  \<open>recordsOf k\<close> is the first \<open>k\<close> control records of a byte sequence and \<open>oldAdvance\<close> the
  sum of their \<open>addSize + seekSize\<close>. \<open>sameOutcome\<close> compares two runs of the engine:
  both succeed with the same bytes, or both fail with the same error.
\<close>

definition fuel :: "byob \<Rightarrow> nat" where
  "fuel r = length (pendingChunk r) + sum_list (map (\<lambda>c. Suc (length c)) (streamReader r))"

record view =
  oldBytes :: "byte list"
  controlBytes :: "byte list"
  diffBytes :: "byte list"
  extraBytes :: "byte list"
  newAt :: int
  oldAt :: int
  written :: "byte list"

definition view :: "state \<Rightarrow> view" where
  "view st =
     \<lparr>oldBytes = remaining (oldReader st), controlBytes = remaining (controlReader st),
      diffBytes = remaining (diffReader st), extraBytes = remaining (extraReader st),
      newAt = newPos st, oldAt = oldPos st, written = concat (yielded st)\<rparr>"

definition state_ok :: "nat \<Rightarrow> state \<Rightarrow> bool" where
  "state_ok bufferSize st =
     (byob_ok (oldReader st) \<and> byob_ok (controlReader st) \<and> byob_ok (diffReader st) \<and>
      byob_ok (extraReader st) \<and> length (temp1 st) = bufferSize \<and> length (temp2 st) = bufferSize)"

definition added :: "nat \<Rightarrow> view \<Rightarrow> view" where
  "added m v =
     v\<lparr>oldBytes := drop m (oldBytes v), diffBytes := drop m (diffBytes v),
       newAt := newAt v + int m, oldAt := oldAt v + int m,
       written := written v @ map2 (+) (take m (oldBytes v)) (take m (diffBytes v))\<rparr>"

definition copied :: "nat \<Rightarrow> view \<Rightarrow> view" where
  "copied m v =
     v\<lparr>extraBytes := drop m (extraBytes v), newAt := newAt v + int m,
       written := written v @ take m (extraBytes v)\<rparr>"

definition sought :: "nat \<Rightarrow> view \<Rightarrow> view" where
  "sought m v = v\<lparr>oldBytes := drop m (oldBytes v), oldAt := oldAt v + int m\<rparr>"

definition decodeControl :: "byte list \<Rightarrow> controlHeader" where
  "decodeControl data =
     \<lparr>addSize = getInt64 data (0 * 8), copySize = getInt64 data (1 * 8),
      seekSize = getInt64 data (2 * 8)\<rparr>"

definition turn :: "int \<Rightarrow> view \<Rightarrow> error + view" where
  "turn newSize' v =
     (if length (controlBytes v) < 24 then Inl UnexpectedEOF
      else
        (let c = decodeControl (take 24 (controlBytes v));
             v0 = v\<lparr>controlBytes := drop 24 (controlBytes v)\<rparr>
         in if newAt v0 + addSize c > newSize' \<or> addSize c < 0 then Inl CorruptPatch
            else if \<not> (nat (addSize c) \<le> length (oldBytes v0) \<and>
                        nat (addSize c) \<le> length (diffBytes v0))
            then Inl UnexpectedEOF
            else
              (let v1 = added (nat (addSize c)) v0
               in if newAt v1 + copySize c > newSize' \<or> copySize c < 0 then Inl CorruptPatch
                  else if \<not> nat (copySize c) \<le> length (extraBytes v1) then Inl UnexpectedEOF
                  else
                    (let v2 = copied (nat (copySize c)) v1
                     in if seekSize c < 0 then Inl CorruptPatch
                        else if \<not> nat (seekSize c) \<le> length (oldBytes v2) then Inl UnexpectedEOF
                        else Inr (sought (nat (seekSize c)) v2)))))"

definition seen :: "failure + state \<Rightarrow> error + view" where
  "seen r = (case r of Inl f \<Rightarrow> Inl (thrown f) | Inr st \<Rightarrow> Inr (view st))"

fun recordsOf :: "nat \<Rightarrow> byte list \<Rightarrow> controlHeader list" where
  "recordsOf 0 bytes = []"
| "recordsOf (Suc k) bytes = decodeControl (take 24 bytes) # recordsOf k (drop 24 bytes)"

definition oldAdvance :: "controlHeader list \<Rightarrow> int" where
  "oldAdvance recs = sum_list (map (\<lambda>c. addSize c + seekSize c) recs)"

definition sameOutcome :: "failure + byte list list \<Rightarrow> failure + byte list list \<Rightarrow> bool" where
  "sameOutcome r1 r2 =
     (case r1 of
        Inr out1 \<Rightarrow> (case r2 of Inr out2 \<Rightarrow> concat out2 = concat out1 | Inl f2 \<Rightarrow> False)
      | Inl f1 \<Rightarrow> (case r2 of Inr out2 \<Rightarrow> False | Inl f2 \<Rightarrow> thrown f2 = thrown f1))"

text \<open>
  The example inputs of the witnesses. \<open>stored\<close> stands in for the decompressor there: the
  container in which a stream is its own compressed form.
\<close>

definition stored :: "byob \<Rightarrow> byte list list" where
  "stored r = [remaining r]"

definition exampleState :: state where
  "exampleState =
     \<lparr>oldReader = emulateBYOB [[0x61, 0x62, 0x63]], controlReader = emulateBYOB [],
      diffReader = emulateBYOB [[1, 1], [0xFF]], extraReader = emulateBYOB [],
      temp1 = [0, 0], temp2 = [0, 0], newPos = 0, oldPos = 0, yielded = []\<rparr>"


definition exampleRun :: state where
  "exampleRun =
     \<lparr>oldReader = emulateBYOB [[0x61, 0x62, 0x63, 0x64]],
      controlReader = emulateBYOB [[3, 0, 0, 0, 0, 0, 0, 0,  0, 0, 0, 0, 0, 0, 0, 0,
                                   1, 0, 0, 0, 0, 0, 0, 0]],
      diffReader = emulateBYOB [[1, 1], [0xFF]], extraReader = emulateBYOB [],
      temp1 = [0, 0], temp2 = [0, 0], newPos = 0, oldPos = 0, yielded = []\<rparr>"

definition exampleEnd :: state where
  "exampleEnd =
     \<lparr>oldReader = \<lparr>streamReader = [], buffer = Some [0x61, 0x62, 0x63, 0x64], offset = 4\<rparr>,
      controlReader = \<lparr>streamReader = [],
        buffer = Some [3, 0, 0, 0, 0, 0, 0, 0,  0, 0, 0, 0, 0, 0, 0, 0,
                       1, 0, 0, 0, 0, 0, 0, 0], offset = 24\<rparr>,
      diffReader = \<lparr>streamReader = [], buffer = Some [0xFF], offset = 1\<rparr>,
      extraReader = \<lparr>streamReader = [], buffer = None, offset = 0\<rparr>,
      temp1 = [0x64, 0x63], temp2 = [0xFF, 1], newPos = 3, oldPos = 4,
      yielded = [[0x62, 0x63], [0x62]]\<rparr>"

definition examplePatch :: "byte list" where
  "examplePatch =
     [0x42, 0x53, 0x44, 0x49, 0x46, 0x46, 0x34, 0x30,
      24, 0, 0, 0, 0, 0, 0, 0,   6, 0, 0, 0, 0, 0, 0, 0,   6, 0, 0, 0, 0, 0, 0, 0,
      6, 0, 0, 0, 0, 0, 0, 0,    0, 0, 0, 0, 0, 0, 0, 0,   0, 0, 0, 0, 0, 0, 0, 0,
      0, 0, 0, 0, 0, 1]"

section \<open>Properties\<close>

subsection \<open>getInt64\<close>

text \<open>
  C1. The claim reads the eight bytes as a sign-magnitude number: 56 bits of little-endian
  magnitude, seven more from the last byte, and bit \<open>0x80\<close> of the last byte as the sign.
  The code computes something else. A shift count is taken modulo 32, so bytes 4 to 7 land
  on top of bytes 0 to 3: the bytes \<open>00 00 00 00 01 00 00 00\<close>, which encode \<open>2 ^ 32\<close>, decode
  to 1. The sign test is \<^verbatim>\<open>bytes[offset + 7] & (0x80 != 0)\<close>, bit \<open>0x01\<close> of the last byte:
  \<open>01 00 00 00 00 00 00 80\<close>, which encodes \<open>-1\<close>, decodes to 1, and
  \<open>01 00 00 00 00 00 00 01\<close>, which encodes \<open>2 ^ 56 + 1\<close>, decodes to \<open>- (2 ^ 24 + 1)\<close>.
\<close>

theorem getInt64_not_sign_magnitude:
  "getInt64 [0, 0, 0, 0, 1, 0, 0, 0] 0 = 1 \<and>
   getInt64 [1, 0, 0, 0, 0, 0, 0, 0x80] 0 = 1 \<and>
   getInt64 [1, 0, 0, 0, 0, 0, 0, 1] 0 = - 16777217"
  by (simp add: getInt64_def at_def shl_def)

subsection \<open>emulateBYOB\<close>

text \<open>
  C5, as the code has it. One read into a destination of \<open>K\<close> bytes does one of three
  things. While the pending chunk has bytes left, it copies \<open>min K\<close> of what is left
  (\<open>take K\<close>) and does not touch upstream. When nothing is pending and upstream hands out a
  chunk \<open>c\<close>, it takes that one chunk, copies \<open>take K c\<close> and returns, also when the
  destination has room left: a second pull never happens within one read (the caller,
  \<^verbatim>\<open>read\<close>, asks again). It reports \<^verbatim>\<open>done\<close> exactly when nothing is pending and upstream
  is finished.
\<close>

theorem emulateBYOB_read_single_pull:
  assumes ok: "byob_ok r" and rd: "emulateBYOB_read r K = (v, r')"
  shows "(pendingChunk r \<noteq> [] \<longrightarrow>
            v = Some (take K (pendingChunk r)) \<and> streamReader r' = streamReader r \<and>
            pendingChunk r' = drop K (pendingChunk r)) \<and>
         (pendingChunk r = [] \<longrightarrow> (\<forall>c cs. streamReader r = c # cs \<longrightarrow>
            v = Some (take K c) \<and> streamReader r' = cs \<and> pendingChunk r' = drop K c)) \<and>
         (v = None \<longleftrightarrow> pendingChunk r = [] \<and> streamReader r = []) \<and>
         byob_ok r'"
  using assms
  by (auto simp: emulateBYOB_read_def refill_def copyOut_def chunkRead_def pendingChunk_def
        byob_ok_def Let_def min_def add.commute split: option.splits list.splits if_splits)

theorem emulateBYOB_read_single_pull_witness:
  "byob_ok (emulateBYOB [[1], [2]]) \<and>
   pendingChunk (emulateBYOB [[1], [2]]) = [] \<and>
   emulateBYOB_read (emulateBYOB [[1], [2]]) 2 =
     (Some [1], \<lparr>streamReader = [[2]], buffer = Some [1], offset = 1\<rparr>) \<and>
   pendingChunk \<lparr>streamReader = [[2]], buffer = Some [1], offset = 1\<rparr> = drop 2 [1] \<and>
   byob_ok \<lparr>streamReader = [[2]], buffer = Some [1], offset = 1\<rparr>"
proof -
  have ok: "byob_ok (emulateBYOB [[1], [2]])"
    by (simp add: byob_ok_def emulateBYOB_def)
  have rd: "emulateBYOB_read (emulateBYOB [[1], [2]]) 2 =
     (Some [1], \<lparr>streamReader = [[2]], buffer = Some [1], offset = 1\<rparr>)"
    by (simp add: emulateBYOB_read_def emulateBYOB_def refill_def chunkRead_def copyOut_def)
  from emulateBYOB_read_single_pull [OF ok rd] ok rd show ?thesis
    by (simp add: pendingChunk_def emulateBYOB_def)
qed

text \<open>
  The claim as stated fails: a fresh reader over the chunks \<open>[1]\<close> and \<open>[2]\<close>, asked for two
  bytes, returns the one byte of the first chunk and leaves the second chunk upstream,
  although the destination has room for it.
\<close>

theorem emulateBYOB_read_no_second_pull:
  "fst (emulateBYOB_read (emulateBYOB [[1], [2]]) 2) = Some [1] \<and>
   streamReader (snd (emulateBYOB_read (emulateBYOB [[1], [2]]) 2)) = [[2]]"
  by (simp add: emulateBYOB_read_def emulateBYOB_def refill_def chunkRead_def copyOut_def)

subsection \<open>The bit reader\<close>

lemma foldl_bits: "foldl (\<lambda>acc x. 2 * acc + of_bool x) a bs = a * 2 ^ length bs + bitsValue bs"
proof -
  define f :: "nat \<Rightarrow> bool \<Rightarrow> nat" where "f = (\<lambda>acc x. 2 * acc + of_bool x)"
  have "foldl f a bs = a * 2 ^ length bs + foldl f 0 bs"
  proof (induction bs arbitrary: a)
    case Nil then show ?case by simp
  next
    case (Cons x xs)
    have "foldl f a (x # xs) = foldl f (f a x) xs" by simp
    also have "\<dots> = f a x * 2 ^ length xs + foldl f 0 xs" by (rule Cons.IH)
    also have "f a x = a * 2 + f 0 x" by (simp add: f_def)
    finally have "foldl f a (x # xs) = a * 2 ^ length (x # xs) + (f 0 x * 2 ^ length xs + foldl f 0 xs)"
      by (simp add: algebra_simps)
    also have "f 0 x * 2 ^ length xs + foldl f 0 xs = foldl f (f 0 x) xs"
      by (rule Cons.IH [symmetric])
    finally show ?case by simp
  qed
  then show ?thesis by (simp add: f_def bitsValue_def)
qed

lemma bitsValue_Nil [simp]: "bitsValue [] = 0"
  by (simp add: bitsValue_def)

lemma bitsValue_Cons: "bitsValue (x # xs) = of_bool x * 2 ^ length xs + bitsValue xs"
  using foldl_bits [of "of_bool x" xs] by (simp add: bitsValue_def)

lemma bitsValue_append: "bitsValue (xs @ ys) = bitsValue xs * 2 ^ length ys + bitsValue ys"
  using foldl_bits [of "bitsValue xs" ys] by (simp add: bitsValue_def)

lemma bitsValue_less: "bitsValue xs < 2 ^ length xs"
proof (induction xs)
  case Nil then show ?case by simp
next
  case (Cons x xs)
  then show ?case by (cases x) (simp_all add: bitsValue_Cons)
qed

lemma bitsValue_range: "bitsValue (map (bit b) (rev [s..<s + k])) = take_bit k (drop_bit s (unat b))"
  for b :: byte
proof (induction k)
  case 0 then show ?case by simp
next
  case (Suc k)
  have "bitsValue (map (bit b) (rev [s..<s + Suc k])) =
        of_bool (bit b (s + k)) * 2 ^ k + bitsValue (map (bit b) (rev [s..<s + k]))"
    by (simp add: bitsValue_Cons)
  also have "\<dots> = 2 ^ k * of_bool (bit (drop_bit s (unat b)) k) + take_bit k (drop_bit s (unat b))"
    by (simp add: Suc.IH bit_drop_bit_eq bit_unsigned_iff)
  also have "\<dots> = take_bit (Suc k) (drop_bit s (unat b))"
    by (simp add: take_bit_Suc_from_most)
  finally show ?case .
qed


lemma length_bitsOf [simp]: "length (bitsOf b) = 8"
  by (simp add: bitsOf_def)

lemma BITMASK_mask: "0 \<le> i \<Longrightarrow> i \<le> 8 \<Longrightarrow> BITMASK i = mask (nat i)"
proof -
  assume "0 \<le> i" "i \<le> 8"
  then have "i = 0 \<or> i = 1 \<or> i = 2 \<or> i = 3 \<or> i = 4 \<or> i = 5 \<or> i = 6 \<or> i = 7 \<or> i = 8"
    by arith
  then show ?thesis
    by (elim disjE) (simp_all add: BITMASK_def mask_eq_exp_minus_1)
qed

lemma bits_drop: "c \<le> 8 \<Longrightarrow> drop c (bitsOf b) = map (bit b) (rev [0..<0 + (8 - c)])"
proof -
  assume c: "c \<le> 8"
  have "drop c (rev [0..<8]) = rev (take (8 - c) [0..<8])"
    by (simp add: drop_rev)
  also have "\<dots> = rev [0..<8 - c]" using c by (simp add: take_upt)
  finally show ?thesis by (simp add: bitsOf_def drop_map)
qed

lemma bits_take_drop:
  "c + n \<le> 8 \<Longrightarrow> take n (drop c (bitsOf b)) = map (bit b) (rev [8 - c - n..<(8 - c - n) + n])"
proof -
  assume cn: "c + n \<le> 8"
  have "take n (rev [0..<8 - c]) = rev (drop (8 - c - n) [0..<8 - c])"
    using cn by (simp add: take_rev)
  also have "\<dots> = rev [8 - c - n..<8 - c]" by (simp add: drop_upt)
  finally show ?thesis using cn by (simp add: bits_drop take_map)
qed

lemma value_drop: "c \<le> 8 \<Longrightarrow> bitsValue (drop c (bitsOf b)) = take_bit (8 - c) (unat b)"
  using bitsValue_range [of b 0 "8 - c"] by (simp add: bits_drop)

lemma value_take_drop:
  "c + n \<le> 8 \<Longrightarrow> bitsValue (take n (drop c (bitsOf b))) = take_bit n (drop_bit (8 - c - n) (unat b))"
  using bitsValue_range [of b "8 - c - n" n] by (simp add: bits_take_drop)

lemma word_take_all:
  fixes b :: byte and result :: int32
  assumes "1 \<le> left" "left \<le> 8"
  shows "shl result left OR (BITMASK left AND ucast b) =
         result * 2 ^ nat left + word_of_nat (take_bit (nat left) (unat b))"
proof -
  have m: "nat (left mod 32) = nat left" using assms by simp
  have w: "(word_of_nat (take_bit (nat left) (unat b)) :: int32) = take_bit (nat left) (ucast b)"
    by (rule bit_eqI) (auto simp: bit_simps)
  have d: "push_bit (nat left) result AND take_bit (nat left) (ucast b :: int32) = 0"
    by (rule bit_eqI) (auto simp: bit_simps)
  have "shl result left OR (BITMASK left AND ucast b) =
        push_bit (nat left) result OR take_bit (nat left) (ucast b)"
    using assms by (simp add: shl_def m BITMASK_mask take_bit_eq_mask and.commute)
  also have "\<dots> = push_bit (nat left) result + take_bit (nat left) (ucast b)"
    using d by (simp add: disjunctive_add_eq_or)
  finally show ?thesis by (simp add: w push_bit_eq_mult)
qed

lemma word_take_some:
  fixes b :: byte and result :: int32
  assumes "0 \<le> c" "1 \<le> n" "n < 8 - c"
  shows "shl result n OR sar (ucast b AND shl (BITMASK n) (8 - n - c)) (8 - n - c) =
         result * 2 ^ nat n + word_of_nat (take_bit (nat n) (drop_bit (nat (8 - n - c)) (unat b)))"
proof -
  define s where "s = nat (8 - n - c)"
  define k where "k = nat n"
  have sk: "s + k \<le> 8" "1 \<le> k" using assms by (simp_all add: s_def k_def)
  have w: "(word_of_nat (take_bit k (drop_bit s (unat b))) :: int32) = take_bit k (drop_bit s (ucast b))"
    using sk by (intro bit_eqI) (auto simp: bit_simps dest: bit_imp_le_length)
  have e: "signed_drop_bit s (ucast b AND push_bit s (mask k :: int32)) = take_bit k (drop_bit s (ucast b))"
    using sk by (intro bit_eqI) (auto simp: bit_simps)
  have d: "push_bit k result AND take_bit k (drop_bit s (ucast b :: int32)) = 0"
    by (rule bit_eqI) (auto simp: bit_simps)
  have r1: "shl result n = push_bit k result"
    using assms by (simp add: shl_def k_def)
  have r2: "shl (BITMASK n) (8 - n - c) = push_bit s (mask k)"
    using assms by (simp add: shl_def s_def k_def BITMASK_mask)
  have r3: "sar x (8 - n - c) = signed_drop_bit s x" for x
    using assms by (simp add: sar_def s_def)
  have "shl result n OR sar (ucast b AND shl (BITMASK n) (8 - n - c)) (8 - n - c) =
        push_bit k result OR take_bit k (drop_bit s (ucast b))"
    by (simp only: r1 r2 r3 e)
  also have "\<dots> = push_bit k result + take_bit k (drop_bit s (ucast b))"
    using d by (simp add: disjunctive_add_eq_or)
  finally show ?thesis by (simp add: w push_bit_eq_mult flip: s_def k_def)
qed

lemma read1_visible_Cons:
  assumes "byob_ok r" "visible r = b # rest"
  shows "\<exists>r'. emulateBYOB_read r 1 = (Some [b], r') \<and> visible r' = rest \<and> byob_ok r' \<and>
              set (streamReader r') \<subseteq> set (streamReader r)"
proof (cases "pendingChunk r = []")
  case False
  then obtain bf where bf: "buffer r = Some bf" "offset r < length bf"
    by (auto simp: pendingChunk_def split: option.splits)
  have p: "pendingChunk r = drop (offset r) bf" by (simp add: pendingChunk_def bf)
  obtain t where t: "drop (offset r) bf = b # t"
    using assms(2) False p by (cases "drop (offset r) bf") (auto simp: visible_def)
  have d1: "drop (Suc (offset r)) bf = t"
    using t by (metis drop_Suc list.sel(3) tl_drop)
  have m: "min 1 (length bf - offset r) = 1" using bf by simp
  have rd: "emulateBYOB_read r 1 = (Some [b], r\<lparr>offset := Suc (offset r)\<rparr>)"
    using bf by (simp add: emulateBYOB_read_def copyOut_def Let_def m t)
  have v: "visible (r\<lparr>offset := Suc (offset r)\<rparr>) = rest"
    using assms(2) by (simp add: visible_def pendingChunk_def bf d1 t)
  have ok: "byob_ok (r\<lparr>offset := Suc (offset r)\<rparr>)"
    using bf by (simp add: byob_ok_def)
  show ?thesis using rd v ok by simp
next
  case True
  with assms(2) obtain c cs where c: "streamReader r = c # cs" "c \<noteq> []"
    by (cases "streamReader r") (auto simp: visible_def split: if_splits)
  then obtain tc where tc: "c = b # tc"
    using assms(2) True by (cases c) (auto simp: visible_def)
  have e: "buffer r = None \<or> (\<exists>bf. buffer r = Some bf \<and> length bf = offset r)"
    using True assms(1) by (auto simp: pendingChunk_def byob_ok_def split: option.splits)
  have rd: "emulateBYOB_read r 1 = (Some [b], r\<lparr>streamReader := cs, buffer := Some c, offset := 1\<rparr>)"
    using e c tc by (auto simp: emulateBYOB_read_def refill_def chunkRead_def copyOut_def)
  have v: "visible (r\<lparr>streamReader := cs, buffer := Some c, offset := 1\<rparr>) = rest"
    using assms(2) True c tc by (simp add: visible_def pendingChunk_def)
  have ok: "byob_ok (r\<lparr>streamReader := cs, buffer := Some c, offset := 1\<rparr>)"
    using tc by (simp add: byob_ok_def)
  show ?thesis using rd v ok c(1) by auto
qed

lemma read1_visible_Nil:
  assumes "byob_ok r" "visible r = []"
  shows "\<exists>r'. (emulateBYOB_read r 1 = (None, r') \<or> emulateBYOB_read r 1 = (Some [], r')) \<and>
              byob_ok r'"
proof -
  have p: "pendingChunk r = []" using assms(2) by (simp add: visible_def)
  have e: "buffer r = None \<or> (\<exists>bf. buffer r = Some bf \<and> length bf = offset r)"
    using p assms(1) by (auto simp: pendingChunk_def byob_ok_def split: option.splits)
  then have rf: "emulateBYOB_read r 1 = refill r 1"
    by (auto simp: emulateBYOB_read_def)
  show ?thesis
  proof (cases "streamReader r")
    case Nil
    then have "refill r 1 = (None, r\<lparr>streamReader := [], buffer := None\<rparr>)"
      by (simp add: refill_def chunkRead_def)
    moreover have "byob_ok (r\<lparr>streamReader := [], buffer := None\<rparr>)"
      by (simp add: byob_ok_def)
    ultimately show ?thesis using rf by simp
  next
    case (Cons c cs)
    have c: "c = []"
    proof (rule ccontr)
      assume "c \<noteq> []"
      then have "visible r \<noteq> []" using Cons by (simp add: visible_def)
      then show False using assms(2) by simp
    qed
    have "refill r 1 = (Some [], r\<lparr>streamReader := cs, buffer := Some [], offset := 0\<rparr>)"
      using Cons by (simp add: refill_def chunkRead_def copyOut_def c)
    moreover have "byob_ok (r\<lparr>streamReader := cs, buffer := Some [], offset := 0\<rparr>)"
      by (simp add: byob_ok_def)
    ultimately show ?thesis using rf by simp
  qed
qed

lemma fetchByte_pending: "cursor br \<noteq> - 1 \<Longrightarrow> fetchByte br = Inr br"
  by (simp add: fetchByte_def)

lemma fetchByte_Cons:
  assumes "cursor br = - 1" "byob_ok (source br)" "visible (source br) = b # rest"
  shows "\<exists>br'. fetchByte br = Inr br' \<and> cursor br' = 0 \<and> byteBuffer br' = b \<and>
               visible (source br') = rest \<and> byob_ok (source br') \<and>
               set (streamReader (source br')) \<subseteq> set (streamReader (source br))"
proof -
  from read1_visible_Cons [OF assms(2,3)] obtain r' where
    "emulateBYOB_read (source br) 1 = (Some [b], r')" "visible r' = rest" "byob_ok r'"
    "set (streamReader r') \<subseteq> set (streamReader (source br))" by blast
  then show ?thesis using assms(1) by (simp add: fetchByte_def)
qed

lemma fetchByte_Nil:
  assumes "cursor br = - 1" "byob_ok (source br)" "visible (source br) = []"
  shows "\<exists>br'. fetchByte br = Inl br' \<and> cursor br' = - 1 \<and> byob_ok (source br')"
proof -
  from read1_visible_Nil [OF assms(2,3)] obtain r' where
    "emulateBYOB_read (source br) 1 = (None, r') \<or> emulateBYOB_read (source br) 1 = (Some [], r')"
    "byob_ok r'" by blast
  then show ?thesis using assms(1) by (auto simp: fetchByte_def)
qed




text \<open>One turn of the loop on a reader that holds a byte (after the fetch).\<close>

lemma loop_take_all:
  assumes "fetchByte br = Inr br1" "0 \<le> cursor br1" "cursor br1 \<le> 7" "8 - cursor br1 \<le> n"
  shows "readBits_loop br n acc =
         readBits_loop (br1\<lparr>cursor := - 1\<rparr>) (n - (8 - cursor br1))
           (acc * 2 ^ nat (8 - cursor br1) + word_of_nat (bitsValue (pendingBits br1)))"
proof -
  have n: "n > 0" using assms by simp
  have v: "bitsValue (pendingBits br1) = take_bit (nat (8 - cursor br1)) (unat (byteBuffer br1))"
    using assms value_drop [of "nat (cursor br1)" "byteBuffer br1"]
    by (simp add: pendingBits_def nat_diff_distrib)
  show ?thesis
    apply (subst readBits_loop.simps)
    using assms n word_take_all [of "8 - cursor br1" acc "byteBuffer br1"]
    apply (simp add: Let_def v)
    done
qed

lemma loop_take_some:
  assumes "fetchByte br = Inr br1" "0 \<le> cursor br1" "0 < n" "n < 8 - cursor br1"
  shows "readBits_loop br n acc =
         Some (sint (acc * 2 ^ nat n + word_of_nat (bitsValue (take (nat n) (pendingBits br1)))),
               br1\<lparr>cursor := cursor br1 + n\<rparr>)"
proof -
  have v: "bitsValue (take (nat n) (pendingBits br1)) =
           take_bit (nat n) (drop_bit (nat (8 - n - cursor br1)) (unat (byteBuffer br1)))"
  proof -
    have cn: "nat (cursor br1) + nat n \<le> 8" using assms by simp
    have e: "8 - nat (cursor br1) - nat n = nat (8 - n - cursor br1)" using assms by simp
    have ne: "cursor br1 \<noteq> - 1" using assms by simp
    show ?thesis
      using value_take_drop [OF cn, of "byteBuffer br1"] by (simp only: pendingBits_def ne if_False e)
  qed
  have z: "readBits_loop b 0 a = Some (sint a, b)" for a b
    by (subst readBits_loop.simps) simp
  show ?thesis
    apply (subst readBits_loop.simps)
    using assms word_take_some [of "cursor br1" n acc "byteBuffer br1"]
    apply (simp add: Let_def v z)
    done
qed


lemma length_pendingBits:
  "0 \<le> cursor br \<Longrightarrow> cursor br \<le> 7 \<Longrightarrow> length (pendingBits br) = nat (8 - cursor br)"
  by (simp add: pendingBits_def nat_diff_distrib)

lemma fetch_streamBits:
  assumes "cursor_ok br" "byob_ok (source br)" "streamBits br \<noteq> []"
  shows "\<exists>br1. fetchByte br = Inr br1 \<and> 0 \<le> cursor br1 \<and> cursor br1 \<le> 7 \<and>
               streamBits br1 = streamBits br \<and> byob_ok (source br1) \<and>
               set (streamReader (source br1)) \<subseteq> set (streamReader (source br))"
proof (cases "cursor br = - 1")
  case False
  then show ?thesis using assms by (simp add: fetchByte_pending cursor_ok_def)
next
  case True
  then have "visible (source br) \<noteq> []"
    using assms(3) by (auto simp: streamBits_def pendingBits_def)
  then obtain b rest where v: "visible (source br) = b # rest"
    by (cases "visible (source br)") auto
  from fetchByte_Cons [OF True assms(2) v] obtain br1 where
    f: "fetchByte br = Inr br1" "cursor br1 = 0" "byteBuffer br1 = b"
       "visible (source br1) = rest" "byob_ok (source br1)"
       "set (streamReader (source br1)) \<subseteq> set (streamReader (source br))" by blast
  have "streamBits br1 = streamBits br"
    using f v True by (simp add: streamBits_def pendingBits_def)
  then show ?thesis using f by simp
qed

lemma fetch_eof:
  assumes "cursor_ok br" "byob_ok (source br)" "streamBits br = []"
  shows "\<exists>br'. fetchByte br = Inl br' \<and> cursor br' = - 1 \<and> byob_ok (source br')"
proof -
  have c: "cursor br = - 1"
  proof (rule ccontr)
    assume n: "cursor br \<noteq> - 1"
    then have "0 \<le> cursor br" "cursor br \<le> 7" using assms(1) by (simp_all add: cursor_ok_def)
    then have "length (pendingBits br) = nat (8 - cursor br)" by (rule length_pendingBits)
    then show False using assms(3) \<open>cursor br \<le> 7\<close> by (simp add: streamBits_def)
  qed
  have "visible (source br) = []"
  proof (cases "visible (source br)")
    case Nil then show ?thesis .
  next
    case (Cons b rest)
    then have "streamBits br \<noteq> []" by (simp add: streamBits_def bitsOf_def)
    then show ?thesis using assms(3) by simp
  qed
  from fetchByte_Nil [OF c assms(2) this] show ?thesis .
qed

lemma streamBits_all_taken:
  assumes "0 \<le> cursor br1" "cursor br1 \<le> 7"
  shows "streamBits (br1\<lparr>cursor := - 1\<rparr>) = drop (nat (8 - cursor br1)) (streamBits br1)"
  using length_pendingBits [OF assms] by (simp add: streamBits_def pendingBits_def)

lemma streamBits_some_taken:
  assumes "0 \<le> cursor br1" "0 < n" "n < 8 - cursor br1"
  shows "streamBits (br1\<lparr>cursor := cursor br1 + n\<rparr>) = drop (nat n) (streamBits br1)"
proof -
  have l: "length (pendingBits br1) = nat (8 - cursor br1)"
    using assms by (intro length_pendingBits) simp_all
  have "pendingBits (br1\<lparr>cursor := cursor br1 + n\<rparr>) = drop (nat n) (pendingBits br1)"
    using assms by (simp add: pendingBits_def nat_add_distrib add.commute)
  then show ?thesis using l assms by (simp add: streamBits_def)
qed

lemma readBits_loop_zero: "readBits_loop br 0 acc = Some (sint acc, br)"
  by (subst readBits_loop.simps) simp

lemma readBits_loop_ok:
  assumes "cursor_ok br" "byob_ok (source br)" "0 \<le> n" "nat n \<le> length (streamBits br)"
  shows "\<exists>br'. readBits_loop br n acc =
                 Some (sint (acc * 2 ^ nat n + word_of_nat (bitsValue (take (nat n) (streamBits br)))), br') \<and>
               streamBits br' = drop (nat n) (streamBits br) \<and>
               cursor_ok br' \<and> byob_ok (source br') \<and> (0 < n \<longrightarrow> cursor br' \<noteq> 0) \<and>
               set (streamReader (source br')) \<subseteq> set (streamReader (source br))"
  using assms
proof (induction "nat n" arbitrary: n br acc rule: less_induct)
  case less
  show ?case
  proof (cases "n = 0")
    case True
    then show ?thesis using less.prems by (simp add: readBits_loop_zero)
  next
    case False
    then have pos: "0 < n" using less.prems by simp
    then have "streamBits br \<noteq> []" using less.prems by auto
    from fetch_streamBits [OF less.prems(1,2) this] obtain br1 where
      f: "fetchByte br = Inr br1" "0 \<le> cursor br1" "cursor br1 \<le> 7"
         "streamBits br1 = streamBits br" "byob_ok (source br1)"
         "set (streamReader (source br1)) \<subseteq> set (streamReader (source br))" by blast
    define left where "left = 8 - cursor br1"
    have lp: "length (pendingBits br1) = nat left"
      using length_pendingBits [OF f(2,3)] by (simp add: left_def)
    have left: "1 \<le> left" "left \<le> 8" using f(2,3) by (simp_all add: left_def)
    define rest where "rest = concat (map bitsOf (visible (source br1)))"
    have sb: "streamBits br = pendingBits br1 @ rest"
      using f(4) by (simp add: streamBits_def rest_def)
    show ?thesis
    proof (cases "left \<le> n")
      case True
      define br2 where "br2 = br1\<lparr>cursor := - 1\<rparr>"
      define acc' :: int32 where
        "acc' = acc * 2 ^ nat left + word_of_nat (bitsValue (pendingBits br1))"
      have step: "readBits_loop br n acc = readBits_loop br2 (n - left) acc'"
        using loop_take_all [OF f(1,2,3), of n acc] True
        by (simp add: left_def br2_def acc'_def)
      have sb2: "streamBits br2 = rest"
        using streamBits_all_taken [OF f(2,3)] lp f(4) sb by (simp add: br2_def left_def)
      have ok2: "cursor_ok br2" "byob_ok (source br2)"
        using f(5) by (simp_all add: br2_def cursor_ok_def)
      have s2: "source br2 = source br1" by (simp add: br2_def)
      have n2: "0 \<le> n - left" "nat (n - left) < nat n" "nat (n - left) \<le> length (streamBits br2)"
        using True left less.prems(4) pos lp by (auto simp: sb sb2)
      from less.hyps [OF n2(2) ok2 n2(1) n2(3), of acc'] obtain br' where
        r: "readBits_loop br2 (n - left) acc' =
              Some (sint (acc' * 2 ^ nat (n - left) +
                          word_of_nat (bitsValue (take (nat (n - left)) (streamBits br2)))), br')"
           "streamBits br' = drop (nat (n - left)) (streamBits br2)"
           "cursor_ok br'" "byob_ok (source br')"
           "0 < n - left \<longrightarrow> cursor br' \<noteq> 0"
           "set (streamReader (source br')) \<subseteq> set (streamReader (source br2))" by blast
      have tk: "take (nat n) (streamBits br) = pendingBits br1 @ take (nat (n - left)) rest"
        using True left lp by (simp add: sb nat_diff_distrib)
      have lt: "length (take (nat (n - left)) rest) = nat (n - left)"
        using n2(3) by (simp add: sb2)
      have nn: "nat n = nat left + nat (n - left)" using True left by simp
      have val: "acc' * 2 ^ nat (n - left) + word_of_nat (bitsValue (take (nat (n - left)) rest)) =
                 acc * 2 ^ nat n + word_of_nat (bitsValue (take (nat n) (streamBits br)))"
      proof -
        have bv: "bitsValue (take (nat n) (streamBits br)) =
                  bitsValue (pendingBits br1) * 2 ^ nat (n - left) +
                  bitsValue (take (nat (n - left)) rest)"
          by (simp only: tk bitsValue_append lt)
        have pw: "(2::int32) ^ nat n = 2 ^ nat left * 2 ^ nat (n - left)"
          by (subst nn) (rule power_add)
        show ?thesis by (simp add: bv acc'_def pw algebra_simps)
      qed
      have dr: "drop (nat (n - left)) rest = drop (nat n) (streamBits br)"
        using lp by (simp add: sb nn)
      have c0: "cursor br' \<noteq> 0"
      proof (cases "0 < n - left")
        case True then show ?thesis using r(5) by simp
      next
        case False
        then have "n - left = 0" using n2(1) by simp
        then have "br' = br2" using r(1) by (simp add: readBits_loop_zero)
        then show ?thesis by (simp add: br2_def)
      qed
      have sub: "set (streamReader (source br')) \<subseteq> set (streamReader (source br))"
        using r(6) f(6) s2 by auto
      show ?thesis
        using step r(1,3,4) c0 sub by (simp add: val sb2 r(2) dr)
    next
      case False
      then have lt: "n < 8 - cursor br1" by (simp add: left_def)
      have step: "readBits_loop br n acc =
         Some (sint (acc * 2 ^ nat n + word_of_nat (bitsValue (take (nat n) (pendingBits br1)))),
               br1\<lparr>cursor := cursor br1 + n\<rparr>)"
        by (rule loop_take_some [OF f(1,2) pos lt])
      have tk: "take (nat n) (streamBits br) = take (nat n) (pendingBits br1)"
        using False lp left by (simp add: sb)
      have sb': "streamBits (br1\<lparr>cursor := cursor br1 + n\<rparr>) = drop (nat n) (streamBits br)"
        using streamBits_some_taken [OF f(2) pos lt] f(4) by simp
      have ok': "cursor_ok (br1\<lparr>cursor := cursor br1 + n\<rparr>)"
        using f(2,3) lt pos by (simp add: cursor_ok_def)
      show ?thesis
        using step sb' ok' f(5) f(2) f(6) pos by (simp add: tk)
    qed
  qed
qed

lemma readBits_loop_eof:
  assumes "cursor_ok br" "byob_ok (source br)" "length (streamBits br) < nat n"
  shows "\<exists>br'. readBits_loop br n acc = Some (- 1, br') \<and> cursor br' = - 1 \<and> byob_ok (source br')"
  using assms
proof (induction "nat n" arbitrary: n br acc rule: less_induct)
  case less
  have pos: "0 < n" using less.prems by simp
  show ?case
  proof (cases "streamBits br = []")
    case True
    from fetch_eof [OF less.prems(1,2) True] obtain br' where
      "fetchByte br = Inl br'" "cursor br' = - 1" "byob_ok (source br')" by blast
    then show ?thesis using pos by (subst readBits_loop.simps) simp
  next
    case False
    from fetch_streamBits [OF less.prems(1,2) False] obtain br1 where
      f: "fetchByte br = Inr br1" "0 \<le> cursor br1" "cursor br1 \<le> 7"
         "streamBits br1 = streamBits br" "byob_ok (source br1)" by blast
    define left where "left = 8 - cursor br1"
    have lp: "length (pendingBits br1) = nat left"
      using length_pendingBits [OF f(2,3)] by (simp add: left_def)
    have left: "1 \<le> left" "left \<le> 8" using f(2,3) by (simp_all add: left_def)
    have ll: "nat left \<le> length (streamBits br)"
      using lp f(4) by (metis length_append le_add1 streamBits_def)
    then have ge: "8 - cursor br1 \<le> n" using less.prems(3) left by (simp add: left_def)
    define br2 where "br2 = br1\<lparr>cursor := - 1\<rparr>"
    have step: "readBits_loop br n acc = readBits_loop br2 (n - left)
                  (acc * 2 ^ nat left + word_of_nat (bitsValue (pendingBits br1)))"
      using loop_take_all [OF f(1,2,3) ge, of acc] by (simp add: left_def br2_def)
    have sb2: "streamBits br2 = drop (nat left) (streamBits br)"
      using streamBits_all_taken [OF f(2,3)] f(4) by (simp add: br2_def left_def)
    have ok2: "cursor_ok br2" "byob_ok (source br2)"
      using f by (simp_all add: br2_def cursor_ok_def)
    have n2: "nat (n - left) < nat n" "length (streamBits br2) < nat (n - left)"
      using left ll less.prems(3) pos by (auto simp: sb2)
    from less.hyps [OF n2(1) ok2 n2(2)] show ?thesis using step by simp
  qed
qed

lemma takeWhile_nonempty: "[] \<notin> set xs \<Longrightarrow> takeWhile (\<lambda>c. c \<noteq> []) (xs @ ys) = xs @ takeWhile (\<lambda>c. c \<noteq> []) ys"
  by (induction xs) auto

lemma visible_remaining: "[] \<notin> set (streamReader r) \<Longrightarrow> visible r = remaining r"
proof -
  assume a: "[] \<notin> set (streamReader r)"
  have t: "takeWhile (\<lambda>c. c \<noteq> []) (streamReader r) = streamReader r"
    using takeWhile_nonempty [OF a, of "[]"] by simp
  show ?thesis unfolding visible_def remaining_def pendingChunk_def t ..
qed

lemma streamBits_upcoming: "[] \<notin> set (streamReader (source br)) \<Longrightarrow> streamBits br = upcoming br"
  by (simp add: streamBits_def upcoming_def visible_remaining)

lemma pendingChunk_streamReader: "pendingChunk (r\<lparr>streamReader := cs\<rparr>) = pendingChunk r"
  by (simp add: pendingChunk_def split: option.splits)

lemma streamBits_afterEmpty:
  "[] \<notin> set (streamReader (source br)) \<Longrightarrow> streamBits (afterEmpty br later) = upcoming br"
proof -
  assume a: "[] \<notin> set (streamReader (source br))"
  have t: "takeWhile (\<lambda>c. c \<noteq> []) (streamReader (source br) @ [] # later) = streamReader (source br)"
    using takeWhile_nonempty [OF a, of "[] # later"] by simp
  have v: "visible (source (afterEmpty br later)) = remaining (source br)"
    by (simp add: afterEmpty_def visible_def pendingChunk_streamReader t)
      (simp add: remaining_def pendingChunk_def)
  have p: "pendingBits (afterEmpty br later) = pendingBits br"
    by (simp add: afterEmpty_def pendingBits_def)
  show ?thesis by (simp add: streamBits_def upcoming_def v p)
qed

lemma toInt32_small: "v < 2 ^ 31 \<Longrightarrow> toInt32 v = int v"
proof -
  assume v: "v < 2 ^ 31"
  then have "int v < int (2 ^ 31)" by (simp only: of_nat_less_iff)
  then have i: "int v < 2 ^ 31" by simp
  have e: "(word_of_nat v :: int32) = word_of_int (int v)" by simp
  have "toInt32 v = signed_take_bit (LENGTH(32) - 1) (int v)"
    unfolding toInt32_def e by (rule sint_sbintrunc')
  also have "\<dots> = int v"
    using i by (simp add: signed_take_bit_int_eq_self)
  finally show ?thesis .
qed

lemma streamBits_subset:
  assumes "[] \<notin> set (streamReader (source br))"
    and "set (streamReader (source br')) \<subseteq> set (streamReader (source br))"
  shows "streamBits br' = upcoming br'"
proof -
  have "[] \<notin> set (streamReader (source br'))" using assms by auto
  then show ?thesis by (rule streamBits_upcoming)
qed

text \<open>
  C7, as the code has it. Let the reader hold a valid cursor (one of \<open>-1..7\<close>, as every call
  leaves it). \<open>streamBits\<close> are the bits still to come before upstream ends or first hands
  out an empty chunk, which \<^verbatim>\<open>readBits\<close> takes as the end (see C10); when upstream hands out
  no empty chunk they are the bits of everything upstream holds. For \<open>1 \<le> n \<le> 32\<close>, when \<open>n\<close>
  of these bits are still to come, \<^verbatim>\<open>readBits(n)\<close> returns and consumes exactly the next \<open>n\<close>
  of them, most significant bit first, afterwards holding less than one byte of
  unconsumed bits (it reads one byte at a time and never ahead). The value returned is
  the number those bits spell, read as a signed 32-bit integer: for \<open>n \<le> 31\<close> that is the
  number itself, for \<open>n = 32\<close> a leading 1 bit makes it negative. When fewer than \<open>n\<close> of
  these bits are to come, it returns \<open>-1\<close> and does not fail.
\<close>

theorem readBits_next_bits:
  assumes "cursor_ok br" "byob_ok (source br)" "1 \<le> n" "n \<le> 32"
  shows "(nat n \<le> length (streamBits br) \<longrightarrow>
            (\<exists>br'. readBits br n = Some (toInt32 (bitsValue (take (nat n) (streamBits br))), br') \<and>
                   streamBits br' = drop (nat n) (streamBits br) \<and> length (pendingBits br') < 8 \<and>
                   cursor_ok br' \<and> byob_ok (source br') \<and>
                   ([] \<notin> set (streamReader (source br)) \<longrightarrow>
                      upcoming br' = drop (nat n) (upcoming br)))) \<and>
         (n \<le> 31 \<longrightarrow>
            toInt32 (bitsValue (take (nat n) (streamBits br))) =
            int (bitsValue (take (nat n) (streamBits br)))) \<and>
         (length (streamBits br) < nat n \<longrightarrow>
            (\<exists>br'. readBits br n = Some (- 1, br') \<and> cursor_ok br' \<and> byob_ok (source br'))) \<and>
         ([] \<notin> set (streamReader (source br)) \<longrightarrow> streamBits br = upcoming br)"
proof (intro conjI impI)
  assume le: "nat n \<le> length (streamBits br)"
  have n0: "0 \<le> n" "0 < n" using assms(3) by simp_all
  from readBits_loop_ok [OF assms(1,2) n0(1) le, of 0] obtain br' where
    r: "readBits_loop br n 0 =
          Some (sint (0 * 2 ^ nat n + word_of_nat (bitsValue (take (nat n) (streamBits br))) :: int32), br')"
       "streamBits br' = drop (nat n) (streamBits br)"
       "cursor_ok br'" "byob_ok (source br')" "cursor br' \<noteq> 0"
       "set (streamReader (source br')) \<subseteq> set (streamReader (source br))"
    using n0(2) by auto
  have lp: "length (pendingBits br') < 8"
    using r(3,5) by (auto simp: pendingBits_def cursor_ok_def)
  have up: "upcoming br' = drop (nat n) (upcoming br)" if ne: "[] \<notin> set (streamReader (source br))"
    using r(2) streamBits_subset [OF ne r(6)] streamBits_upcoming [OF ne] by simp
  show "\<exists>br'. readBits br n = Some (toInt32 (bitsValue (take (nat n) (streamBits br))), br') \<and>
              streamBits br' = drop (nat n) (streamBits br) \<and> length (pendingBits br') < 8 \<and>
              cursor_ok br' \<and> byob_ok (source br') \<and>
              ([] \<notin> set (streamReader (source br)) \<longrightarrow> upcoming br' = drop (nat n) (upcoming br))"
    using r(1,2,3,4) up lp by (auto simp: readBits_def toInt32_def)
next
  assume n31: "n \<le> 31"
  have "bitsValue (take (nat n) (streamBits br)) < 2 ^ length (take (nat n) (streamBits br))"
    by (rule bitsValue_less)
  also have "\<dots> \<le> (2::nat) ^ 31"
    using n31 by (intro power_increasing) auto
  finally show "toInt32 (bitsValue (take (nat n) (streamBits br))) =
                int (bitsValue (take (nat n) (streamBits br)))"
    by (rule toInt32_small)
next
  assume "length (streamBits br) < nat n"
  from readBits_loop_eof [OF assms(1,2) this, of 0]
  show "\<exists>br'. readBits br n = Some (- 1, br') \<and> cursor_ok br' \<and> byob_ok (source br')"
    by (auto simp: readBits_def cursor_ok_def)
next
  assume "[] \<notin> set (streamReader (source br))"
  then show "streamBits br = upcoming br" by (rule streamBits_upcoming)
qed

lemma streamBits_example:
  "streamBits (bitReaderFromStreamReader (emulateBYOB [[0xAB, 0xCD], [], [0xEF]])) =
     [True, False, True, False, True, False, True, True,
      True, True, False, False, True, True, False, True]"
  by (simp add: streamBits_def visible_def pendingChunk_def bitReaderFromStreamReader_def
      emulateBYOB_def pendingBits_def bitsOf_def upt_rec bit_numeral_word_iff)

text \<open>
  Upstream hands out \<open>AB CD\<close>, then an empty chunk, then \<open>EF\<close>: twelve bits are read as
  \<open>0xABC\<close> and leave four; twenty-four bits are not to be had before the empty chunk.
\<close>

theorem readBits_next_bits_witness:
  "cursor_ok (bitReaderFromStreamReader (emulateBYOB [[0xAB, 0xCD], [], [0xEF]])) \<and>
   byob_ok (source (bitReaderFromStreamReader (emulateBYOB [[0xAB, 0xCD], [], [0xEF]]))) \<and>
   nat 12 \<le> length (streamBits (bitReaderFromStreamReader (emulateBYOB [[0xAB, 0xCD], [], [0xEF]]))) \<and>
   (\<exists>br'. readBits (bitReaderFromStreamReader (emulateBYOB [[0xAB, 0xCD], [], [0xEF]])) 12 =
            Some (0xABC, br') \<and>
          streamBits br' = [True, True, False, True] \<and> length (pendingBits br') < 8) \<and>
   length (streamBits (bitReaderFromStreamReader (emulateBYOB [[0xAB, 0xCD], [], [0xEF]]))) < nat 24 \<and>
   (\<exists>br'. readBits (bitReaderFromStreamReader (emulateBYOB [[0xAB, 0xCD], [], [0xEF]])) 24 =
            Some (- 1, br'))"
proof -
  let ?br = "bitReaderFromStreamReader (emulateBYOB [[0xAB, 0xCD], [], [0xEF]])"
  have h: "cursor_ok ?br" "byob_ok (source ?br)"
    by (simp_all add: cursor_ok_def byob_ok_def bitReaderFromStreamReader_def emulateBYOB_def)
  have n: "(1::int) \<le> 12" "(12::int) \<le> 32" by simp_all
  have m: "(1::int) \<le> 24" "(24::int) \<le> 32" by simp_all
  have l: "nat 12 \<le> length (streamBits ?br)" "length (streamBits ?br) < nat 24"
    by (simp_all add: streamBits_example)
  have v: "bitsValue [True, False, True, False, True, False, True, True, True, True, False, False] =
           0xABC"
    by (simp add: bitsValue_def)
  have t: "toInt32 0xABC = 0xABC" by (simp add: toInt32_def)
  from readBits_next_bits [OF h n] l(1)
  have a: "\<exists>br'. readBits ?br 12 = Some (0xABC, br') \<and>
          streamBits br' = [True, True, False, True] \<and> length (pendingBits br') < 8"
    by (simp add: streamBits_example v t) blast
  from readBits_next_bits [OF h m] l(2)
  have b: "\<exists>br'. readBits ?br 24 = Some (- 1, br')" by blast
  show ?thesis using h l a b by blast
qed

text \<open>
  The claim as stated fails at \<open>n = 32\<close>: the 32 bits of \<open>80 00 00 00\<close> spell \<open>2 ^ 31\<close> and
  \<^verbatim>\<open>readBits(32)\<close> returns \<open>- 2 ^ 31\<close>; on \<open>FF FF FF FF\<close> it returns \<open>-1\<close>, the value that
  otherwise tells the caller that upstream is exhausted. It fails too when upstream hands
  out an empty chunk: of \<open>AB\<close>, an empty chunk and \<open>CD\<close>, \<^verbatim>\<open>readBits(16)\<close> returns \<open>-1\<close> although
  upstream holds sixteen bits.
\<close>

theorem readBits_not_next_bits:
  "map_option fst (readBits (bitReaderFromStreamReader (emulateBYOB [[0x80, 0, 0, 0]])) 32) =
     Some (- 2147483648) \<and>
   bitsValue (concat (map bitsOf [0x80, 0, 0, 0])) = 2147483648 \<and>
   map_option fst (readBits (bitReaderFromStreamReader (emulateBYOB [[0xFF, 0xFF, 0xFF, 0xFF]])) 32) =
     Some (- 1) \<and>
   map_option fst (readBits (bitReaderFromStreamReader (emulateBYOB [[0xAB], [], [0xCD]])) 16) =
     Some (- 1) \<and>
   remaining (emulateBYOB [[0xAB], [], [0xCD]]) = [0xAB, 0xCD]"
  by (simp add: readBits_def readBits_loop.simps fetchByte_def bitReaderFromStreamReader_def
      emulateBYOB_def emulateBYOB_read_def refill_def chunkRead_def copyOut_def shl_def sar_def
      BITMASK_def bitsValue_def bitsOf_def upt_rec bit_numeral_word_iff remaining_def)


lemma readBits_loop_nonpos: "n \<le> 0 \<Longrightarrow> readBits_loop br n acc = Some (sint acc, br)"
  by (subst readBits_loop.simps) simp

lemma afterEmpty_ok:
  "cursor_ok (afterEmpty br later) = cursor_ok br"
  "byob_ok (source (afterEmpty br later)) = byob_ok (source br)"
  by (simp_all add: afterEmpty_def cursor_ok_def byob_ok_def split: option.splits)

text \<open>
  C10. A read of upstream that succeeds with zero bytes is taken exactly as the end of the
  stream. Let upstream hold only non-empty chunks. Whether upstream then finishes, or
  hands out an empty chunk and more chunks after it, \<^verbatim>\<open>readBits(n)\<close> returns the same
  value; and when fewer than \<open>n\<close> bits come before that point it returns \<open>-1\<close> in both
  cases, with nothing buffered afterwards (the bits accumulated so far are dropped).
\<close>

theorem readBits_empty_read_like_eof:
  assumes "cursor_ok br" "byob_ok (source br)" "[] \<notin> set (streamReader (source br))"
  shows "map_option fst (readBits (afterEmpty br later) n) = map_option fst (readBits br n) \<and>
         (length (upcoming br) < nat n \<longrightarrow>
            (\<exists>br'. readBits br n = Some (- 1, br') \<and> cursor br' = - 1) \<and>
            (\<exists>br'. readBits (afterEmpty br later) n = Some (- 1, br') \<and> cursor br' = - 1))"
proof -
  let ?br0 = "afterEmpty br later"
  have ok0: "cursor_ok ?br0" "byob_ok (source ?br0)"
    using assms(1,2) by (simp_all add: afterEmpty_ok)
  have sb: "streamBits br = upcoming br" "streamBits ?br0 = upcoming br"
    using assms(3) by (simp_all add: streamBits_upcoming streamBits_afterEmpty)
  have eof: "(\<exists>br'. readBits br n = Some (- 1, br') \<and> cursor br' = - 1) \<and>
             (\<exists>br'. readBits ?br0 n = Some (- 1, br') \<and> cursor br' = - 1)"
    if short: "length (upcoming br) < nat n"
  proof -
    have "length (streamBits br) < nat n" "length (streamBits ?br0) < nat n"
      using short by (simp_all add: sb)
    from readBits_loop_eof [OF assms(1,2) this(1), of 0] readBits_loop_eof [OF ok0 this(2), of 0]
    show ?thesis by (auto simp: readBits_def)
  qed
  have same: "map_option fst (readBits ?br0 n) = map_option fst (readBits br n)"
  proof (cases "n \<le> 0")
    case True
    then show ?thesis by (simp add: readBits_def readBits_loop_nonpos)
  next
    case False
    then have n0: "0 \<le> n" by simp
    show ?thesis
    proof (cases "nat n \<le> length (upcoming br)")
      case True
      then have "nat n \<le> length (streamBits br)" "nat n \<le> length (streamBits ?br0)"
        by (simp_all add: sb)
      from readBits_loop_ok [OF assms(1,2) n0 this(1), of 0] readBits_loop_ok [OF ok0 n0 this(2), of 0]
      show ?thesis by (auto simp: readBits_def sb)
    next
      case False
      then have "length (upcoming br) < nat n" by simp
      from eof [OF this] show ?thesis by auto
    qed
  qed
  show ?thesis using same eof by blast
qed

theorem readBits_empty_read_like_eof_witness:
  "cursor_ok (bitReaderFromStreamReader (emulateBYOB [[0xAB]])) \<and>
   byob_ok (source (bitReaderFromStreamReader (emulateBYOB [[0xAB]]))) \<and>
   [] \<notin> set (streamReader (source (bitReaderFromStreamReader (emulateBYOB [[0xAB]])))) \<and>
   length (upcoming (bitReaderFromStreamReader (emulateBYOB [[0xAB]]))) < nat 16 \<and>
   map_option fst (readBits (bitReaderFromStreamReader (emulateBYOB [[0xAB]])) 16) = Some (- 1) \<and>
   map_option fst
     (readBits (afterEmpty (bitReaderFromStreamReader (emulateBYOB [[0xAB]])) [[0xCD]]) 16) =
     Some (- 1)"
proof -
  let ?br = "bitReaderFromStreamReader (emulateBYOB [[0xAB]])"
  have h: "cursor_ok ?br" "byob_ok (source ?br)" "[] \<notin> set (streamReader (source ?br))"
    by (simp_all add: cursor_ok_def byob_ok_def bitReaderFromStreamReader_def emulateBYOB_def)
  have l: "length (upcoming ?br) < nat 16"
    by (simp add: upcoming_def bitReaderFromStreamReader_def emulateBYOB_def pendingBits_def
        remaining_def)
  from readBits_empty_read_like_eof [OF h, of "[[0xCD]]" 16] l h show ?thesis
    by auto
qed

subsection \<open>Reading a given number of bytes\<close>

lemma remaining_pending: "remaining r = pendingChunk r @ concat (streamReader r)"
  by (simp add: remaining_def pendingChunk_def)

lemma copyOut_remaining:
  assumes "buffer r = Some b" "offset r \<le> length b" "copyOut r b K = (v, r')"
  shows "byob_ok r' \<and> (\<exists>bytes. v = Some bytes \<and> bytes = take K (pendingChunk r) \<and>
           pendingChunk r' = drop K (pendingChunk r) \<and> streamReader r' = streamReader r)"
  using assms
  by (auto simp: copyOut_def Let_def byob_ok_def pendingChunk_def min_def add.commute)

lemma emulateBYOB_read_remaining:
  assumes ok: "byob_ok r" and rd: "emulateBYOB_read r K = (v, r')"
  shows "byob_ok r' \<and>
         (case v of
            None \<Rightarrow> remaining r = []
          | Some bytes \<Rightarrow>
              length bytes \<le> K \<and> bytes = take (length bytes) (remaining r) \<and>
              remaining r' = drop (length bytes) (remaining r) \<and> (0 < K \<longrightarrow> fuel r' < fuel r))"
proof (cases "pendingChunk r = []")
  case False
  then obtain b where b: "buffer r = Some b" "offset r < length b"
    by (auto simp: pendingChunk_def split: option.splits)
  then have "copyOut r b K = (v, r')" using rd by (simp add: emulateBYOB_read_def)
  from copyOut_remaining [OF b(1) _ this] b(2) obtain bytes where
    c: "byob_ok r'" "v = Some bytes" "bytes = take K (pendingChunk r)"
       "pendingChunk r' = drop K (pendingChunk r)" "streamReader r' = streamReader r" by auto
  have l: "length bytes = min K (length (pendingChunk r))" using c(3) by simp
  have "bytes = take (length bytes) (remaining r)"
    using c(3) by (simp add: remaining_pending l min_def)
  moreover have "remaining r' = drop (length bytes) (remaining r)"
    using c(4,5) by (simp add: remaining_pending l min_def)
  moreover have "0 < K \<longrightarrow> fuel r' < fuel r"
    using False c(4,5) by (simp add: fuel_def)
  ultimately show ?thesis using c(1,2) l by simp
next
  case True
  then have e: "buffer r = None \<or> (\<exists>b. buffer r = Some b \<and> length b = offset r)"
    using ok by (auto simp: pendingChunk_def byob_ok_def split: option.splits)
  then have rf: "refill r K = (v, r')" using rd by (auto simp: emulateBYOB_read_def)
  show ?thesis
  proof (cases "streamReader r")
    case Nil
    then show ?thesis using rf True
      by (auto simp: refill_def chunkRead_def byob_ok_def remaining_pending)
  next
    case (Cons c cs)
    define r1 where "r1 = r\<lparr>streamReader := cs, buffer := Some c, offset := 0\<rparr>"
    have co: "copyOut r1 c K = (v, r')"
      using rf Cons by (simp add: refill_def chunkRead_def r1_def)
    have b1: "buffer r1 = Some c" "offset r1 \<le> length c" by (simp_all add: r1_def)
    have p1: "pendingChunk r1 = c" "streamReader r1 = cs" by (simp_all add: r1_def pendingChunk_def)
    from copyOut_remaining [OF b1 co] obtain bytes where
      c: "byob_ok r'" "v = Some bytes" "bytes = take K c"
         "pendingChunk r' = drop K c" "streamReader r' = cs" by (auto simp: p1)
    have l: "length bytes = min K (length c)" using c(3) by simp
    have "bytes = take (length bytes) (remaining r)"
      using c(3) True Cons by (simp add: remaining_pending l min_def)
    moreover have "remaining r' = drop (length bytes) (remaining r)"
      using c(4,5) True Cons by (simp add: remaining_pending l min_def)
    moreover have "fuel r' < fuel r"
      using True Cons c(4,5) by (simp add: fuel_def)
    ultimately show ?thesis using c(1,2) l by simp
  qed
qed

lemma read_done: "stop \<le> offs \<Longrightarrow> read r buf offs stop = Some (Inr (buf, r))"
  by (subst read.simps) simp

lemma read_step:
  assumes "offs < stop" "emulateBYOB_read r (subarrayLength buf offs stop) = (v, r')"
  shows "read r buf offs stop =
         (case v of None \<Rightarrow> Some (Inl UnexpectedEOF)
          | Some newView \<Rightarrow> read r' (setBytes buf offs newView) (offs + length newView) stop)"
  using assms by (subst read.simps) (simp split: option.splits)

lemma setBytes_facts:
  assumes "offs + length bytes \<le> stop" "stop \<le> length buf"
  shows "length (setBytes buf offs bytes) = length buf"
    and "take (offs + length bytes) (setBytes buf offs bytes) = take offs buf @ bytes"
    and "drop stop (setBytes buf offs bytes) = drop stop buf"
proof -
  have o: "offs \<le> length buf" "offs + length bytes \<le> length buf" "offs + length bytes \<le> stop"
    using assms by simp_all
  show "length (setBytes buf offs bytes) = length buf"
    using o by (simp add: setBytes_def)
  show "take (offs + length bytes) (setBytes buf offs bytes) = take offs buf @ bytes"
    using o by (simp add: setBytes_def)
  have "drop stop (setBytes buf offs bytes) = drop (stop - (offs + length bytes)) (drop (offs + length bytes) buf)"
    using o by (simp add: setBytes_def)
  then show "drop stop (setBytes buf offs bytes) = drop stop buf"
    using o by simp
qed

lemma read_total:
  assumes "byob_ok r" "offs \<le> stop" "stop \<le> length buf"
  shows "if stop - offs \<le> length (remaining r)
         then \<exists>r'. read r buf offs stop =
                      Some (Inr (take offs buf @ take (stop - offs) (remaining r) @ drop stop buf, r')) \<and>
                    remaining r' = drop (stop - offs) (remaining r) \<and> byob_ok r'
         else read r buf offs stop = Some (Inl UnexpectedEOF)"
  using assms
proof (induction "fuel r" arbitrary: r buf offs rule: less_induct)
  case less
  show ?case
  proof (cases "offs = stop")
    case True
    then show ?thesis using less.prems by (simp add: read_done)
  next
    case False
    then have lt: "offs < stop" using less.prems by simp
    define K where "K = stop - offs"
    have K: "subarrayLength buf offs stop = K" "0 < K"
      using lt less.prems by (simp_all add: subarrayLength_def K_def min_def)
    obtain v r1 where rd: "emulateBYOB_read r K = (v, r1)" by (cases "emulateBYOB_read r K")
    note facts = emulateBYOB_read_remaining [OF less.prems(1) rd]
    show ?thesis
    proof (cases v)
      case None
      then have "remaining r = []" using facts by simp
      moreover have "read r buf offs stop = Some (Inl UnexpectedEOF)"
        using read_step [OF lt, of r buf v r1] rd None by (simp add: K)
      ultimately show ?thesis using K by (simp add: K_def)
    next
      case (Some bytes)
      define m where "m = length bytes"
      have f: "byob_ok r1" "m \<le> K" "bytes = take m (remaining r)"
        "remaining r1 = drop m (remaining r)" "fuel r1 < fuel r"
        using facts K(2) by (simp_all add: Some m_def)
      have ml: "m \<le> length (remaining r)"
        using f(3) m_def by (metis length_take min.cobounded2 min_def nat_le_linear)
      define buf1 where "buf1 = setBytes buf offs bytes"
      have b1: "offs + length bytes \<le> stop" using f(2) lt by (simp add: K_def m_def)
      note sb = setBytes_facts [OF b1 less.prems(3)]
      have step: "read r buf offs stop = read r1 buf1 (offs + m) stop"
        using read_step [OF lt, of r buf v r1] rd Some by (simp add: K buf1_def m_def)
      have ih: "if stop - (offs + m) \<le> length (remaining r1)
         then \<exists>r'. read r1 buf1 (offs + m) stop =
                      Some (Inr (take (offs + m) buf1 @ take (stop - (offs + m)) (remaining r1) @
                                 drop stop buf1, r')) \<and>
                    remaining r' = drop (stop - (offs + m)) (remaining r1) \<and> byob_ok r'
         else read r1 buf1 (offs + m) stop = Some (Inl UnexpectedEOF)"
        using less.hyps [OF f(5) f(1), of "offs + m" buf1] b1 less.prems(3) sb(1)
        by (simp add: buf1_def m_def)
      have cond: "(stop - (offs + m) \<le> length (remaining r1)) = (stop - offs \<le> length (remaining r))"
        using ml b1 by (auto simp: f(4) m_def)
      have km: "stop - offs = m + (stop - (offs + m))" using b1 by (simp add: m_def)
      have tk: "take (offs + m) buf1 @ take (stop - (offs + m)) (remaining r1) @ drop stop buf1 =
                take offs buf @ take (stop - offs) (remaining r) @ drop stop buf"
      proof -
        have "take (stop - offs) (remaining r) = bytes @ take (stop - (offs + m)) (remaining r1)"
          by (subst km, subst take_add) (simp add: f(4) f(3) [symmetric])
        then show ?thesis using sb(2,3) by (simp add: buf1_def m_def)
      qed
      have dr: "drop (stop - (offs + m)) (remaining r1) = drop (stop - offs) (remaining r)"
        by (subst km) (simp add: f(4) add.commute)
      show ?thesis
        using ih by (simp only: step cond tk dr)
    qed
  qed
qed

lemma read0:
  assumes "byob_ok r" "n \<le> length buf"
  shows "n \<le> length (remaining r) \<Longrightarrow>
           \<exists>r'. read r buf 0 n = Some (Inr (take n (remaining r) @ drop n buf, r')) \<and>
                remaining r' = drop n (remaining r) \<and> byob_ok r'"
    and "length (remaining r) < n \<Longrightarrow> read r buf 0 n = Some (Inl UnexpectedEOF)"
  using read_total [OF assms(1) _ assms(2), of 0] by (simp_all split: if_splits)

subsection \<open>The three phases\<close>

lemma add_nth:
  "length (add left right 0 n) = length left \<and>
   (\<forall>j < length left. add left right 0 n ! j =
      (if j < n then (if j < length right then left ! j + right ! j else 0) else left ! j))"
proof (induction n)
  case 0
  then show ?case by (simp add: add_def)
next
  case (Suc n)
  have "add left right 0 (Suc n) =
        (add left right 0 n)[n := (if n < length right then add left right 0 n ! n + right ! n else 0)]"
    by (simp add: add_def)
  then show ?case using Suc by (auto simp: nth_list_update less_Suc_eq)
qed

lemma add_take:
  assumes "n \<le> length left" "n \<le> length right"
  shows "take n (add left right 0 n) = map2 (+) (take n left) (take n right)"
    and "length (add left right 0 n) = length left"
proof -
  show "length (add left right 0 n) = length left" using add_nth by blast
  show "take n (add left right 0 n) = map2 (+) (take n left) (take n right)"
  proof (rule nth_equalityI)
    show "length (take n (add left right 0 n)) = length (map2 (+) (take n left) (take n right))"
      using assms add_nth [of left right n] by simp
  next
    fix j assume "j < length (take n (add left right 0 n))"
    then have j: "j < n" "j < length left" "j < length right"
      using assms add_nth [of left right n] by simp_all
    then show "take n (add left right 0 n) ! j = map2 (+) (take n left) (take n right) ! j"
      using add_nth [of left right n] assms by simp
  qed
qed

lemma addLoop_exit: "n \<le> i \<Longrightarrow> addLoop B n i st = Some (Inr st)"
  by (subst addLoop.simps) simp

lemma addLoop_step_ok:
  assumes B: "1 \<le> B" and ok: "state_ok B st" and lt: "i < n"
    and m: "m = nat (min (int B) (n - i))"
    and enough: "m \<le> length (remaining (oldReader st))" "m \<le> length (remaining (diffReader st))"
  shows "\<exists>st1. addLoop B n i st = addLoop B n (i + int B) st1 \<and> state_ok B st1 \<and>
           view st1 = (view st)\<lparr>oldBytes := drop m (oldBytes (view st)),
                                  diffBytes := drop m (diffBytes (view st)),
                                  newAt := newAt (view st) + int m, oldAt := oldAt (view st) + int m,
                                  written := written (view st) @
                                    map2 (+) (take m (oldBytes (view st))) (take m (diffBytes (view st)))\<rparr>"
proof -
  have mB: "m \<le> B" "0 < m" "int m = min (int B) (n - i)" using m B lt by auto
  have l1: "m \<le> length (temp1 st)" "m \<le> length (temp2 st)"
    using ok mB by (simp_all add: state_ok_def)
  have oks: "byob_ok (oldReader st)" "byob_ok (diffReader st)"
    using ok by (simp_all add: state_ok_def)
  from read0(1) [OF oks(1) l1(1) enough(1)] obtain old' where
    o: "read (oldReader st) (temp1 st) 0 m =
          Some (Inr (take m (remaining (oldReader st)) @ drop m (temp1 st), old'))"
       "remaining old' = drop m (remaining (oldReader st))" "byob_ok old'" by blast
  from read0(1) [OF oks(2) l1(2) enough(2)] obtain diff' where
    d: "read (diffReader st) (temp2 st) 0 m =
          Some (Inr (take m (remaining (diffReader st)) @ drop m (temp2 st), diff'))"
       "remaining diff' = drop m (remaining (diffReader st))" "byob_ok diff'" by blast
  define t1 where "t1 = take m (remaining (oldReader st)) @ drop m (temp1 st)"
  define t2 where "t2 = take m (remaining (diffReader st)) @ drop m (temp2 st)"
  have lt1: "length t1 = B" "length t2 = B" "m \<le> length t1" "m \<le> length t2"
    using ok enough l1 by (simp_all add: t1_def t2_def state_ok_def)
  have tk: "take m t1 = take m (remaining (oldReader st))" "take m t2 = take m (remaining (diffReader st))"
    using enough by (simp_all add: t1_def t2_def)
  define st1 where
    "st1 = st\<lparr>oldReader := old', diffReader := diff', temp1 := add t1 t2 0 m, temp2 := t2,
               newPos := newPos st + int m, oldPos := oldPos st + int m,
               yielded := yielded st @ [take m (add t1 t2 0 m)]\<rparr>"
  have step: "addLoop B n i st = addLoop B n (i + int B) st1"
    apply (subst addLoop.simps)
    using lt mB(3) [symmetric] o(1) d(1)
    apply (simp add: Let_def st1_def t1_def t2_def)
    done
  have ok1: "state_ok B st1"
    using ok o(3) d(3) lt1 add_take(2) [OF lt1(3,4)] by (simp add: state_ok_def st1_def)
  have v1: "view st1 = (view st)\<lparr>oldBytes := drop m (oldBytes (view st)),
                                  diffBytes := drop m (diffBytes (view st)),
                                  newAt := newAt (view st) + int m, oldAt := oldAt (view st) + int m,
                                  written := written (view st) @
                                    map2 (+) (take m (oldBytes (view st))) (take m (diffBytes (view st)))\<rparr>"
    using o(2) d(2) add_take(1) [OF lt1(3,4)] by (simp add: view_def st1_def tk)
  show ?thesis using step ok1 v1 by blast
qed

lemma addLoop_step_eof:
  assumes B: "1 \<le> B" and ok: "state_ok B st" and lt: "i < n"
    and m: "m = nat (min (int B) (n - i))"
    and short: "length (remaining (oldReader st)) < m \<or> length (remaining (diffReader st)) < m"
  shows "addLoop B n i st = Some (Inl (failed UnexpectedEOF st))"
proof -
  have mB: "m \<le> B" "0 < m" "int m = min (int B) (n - i)" using m B lt by auto
  have l1: "m \<le> length (temp1 st)" "m \<le> length (temp2 st)"
    using ok mB by (simp_all add: state_ok_def)
  have oks: "byob_ok (oldReader st)" "byob_ok (diffReader st)"
    using ok by (simp_all add: state_ok_def)
  have o: "read (oldReader st) (temp1 st) 0 m = Some (Inl UnexpectedEOF) \<or>
           (\<exists>x. read (oldReader st) (temp1 st) 0 m = Some (Inr x))"
    using read0 [OF oks(1) l1(1)] by (cases "m \<le> length (remaining (oldReader st))") auto
  have d: "read (diffReader st) (temp2 st) 0 m = Some (Inl UnexpectedEOF) \<or>
           (\<exists>x. read (diffReader st) (temp2 st) 0 m = Some (Inr x))"
    using read0 [OF oks(2) l1(2)] by (cases "m \<le> length (remaining (diffReader st))") auto
  have one: "read (oldReader st) (temp1 st) 0 m = Some (Inl UnexpectedEOF) \<or>
             read (diffReader st) (temp2 st) 0 m = Some (Inl UnexpectedEOF)"
    using short read0(2) [OF oks(1) l1(1)] read0(2) [OF oks(2) l1(2)] by blast
  show ?thesis
    apply (subst addLoop.simps)
    using lt mB(3) [symmetric] o d one
    apply (auto simp: Let_def)
    done
qed

lemma added_0: "added 0 v = v"
  by (simp add: added_def)

lemma map2_take_add:
  assumes "m \<le> length xs" "m \<le> length ys"
  shows "map2 f (take (m + k) xs) (take (m + k) ys) =
         map2 f (take m xs) (take m ys) @ map2 f (take k (drop m xs)) (take k (drop m ys))"
proof -
  have "zip (take m xs @ take k (drop m xs)) (take m ys @ take k (drop m ys)) =
        zip (take m xs) (take m ys) @ zip (take k (drop m xs)) (take k (drop m ys))"
    using assms by (intro zip_append) simp
  then show ?thesis by (simp add: take_add)
qed

lemma added_added:
  assumes "m \<le> length (oldBytes v)" "m \<le> length (diffBytes v)"
  shows "added k (added m v) = added (m + k) v"
  using map2_take_add [OF assms, of "(+)" k]
  by (simp add: added_def add.commute [of k m])

lemma view_fields:
  "oldBytes (view st) = remaining (oldReader st)"
  "controlBytes (view st) = remaining (controlReader st)"
  "diffBytes (view st) = remaining (diffReader st)"
  "extraBytes (view st) = remaining (extraReader st)"
  "newAt (view st) = newPos st" "oldAt (view st) = oldPos st"
  "written (view st) = concat (yielded st)"
  by (simp_all add: view_def)

lemma addLoop_view:
  assumes B: "1 \<le> B" and ok: "state_ok B st" and k: "k = nat (n - i)"
  shows "if k \<le> length (oldBytes (view st)) \<and> k \<le> length (diffBytes (view st))
         then \<exists>st'. addLoop B n i st = Some (Inr st') \<and> state_ok B st' \<and> view st' = added k (view st)
         else \<exists>f. addLoop B n i st = Some (Inl f) \<and> thrown f = UnexpectedEOF \<and>
                  newPos st \<le> newPosThen f \<and> newPosThen f \<le> newPos st + int k"
  using ok k
proof (induction k arbitrary: i st rule: less_induct)
  case (less k)
  show ?case
  proof (cases "i < n")
    case False
    then have "k = 0" "n \<le> i" using less.prems by simp_all
    then show ?thesis using less.prems(1) by (simp add: addLoop_exit added_0)
  next
    case True
    define m where "m = nat (min (int B) (n - i))"
    define k' where "k' = nat (n - (i + int B))"
    have mk: "0 < m" "m \<le> k" "k = m + k'" "k' < k"
      using True B less.prems(2) by (auto simp: m_def k'_def)
    show ?thesis
    proof (cases "m \<le> length (remaining (oldReader st)) \<and> m \<le> length (remaining (diffReader st))")
      case False
      then have short: "length (remaining (oldReader st)) < m \<or> length (remaining (diffReader st)) < m"
        by auto
      have "addLoop B n i st = Some (Inl (failed UnexpectedEOF st))"
        by (rule addLoop_step_eof [OF B less.prems(1) True m_def short])
      moreover have "\<not> (k \<le> length (oldBytes (view st)) \<and> k \<le> length (diffBytes (view st)))"
        using False mk(2) by (auto simp: view_fields)
      ultimately show ?thesis by (simp add: failed_def)
    next
      case enough: True
      then have e: "m \<le> length (remaining (oldReader st))" "m \<le> length (remaining (diffReader st))"
        by simp_all
      from addLoop_step_ok [OF B less.prems(1) True m_def e] obtain st1 where
        s: "addLoop B n i st = addLoop B n (i + int B) st1" "state_ok B st1"
           "view st1 = added m (view st)" by (auto simp: added_def)
      note ih = less.IH [OF mk(4) s(2) k'_def]
      have ev: "m \<le> length (oldBytes (view st))" "m \<le> length (diffBytes (view st))"
        using e by (simp_all add: view_fields)
      have cond: "(k' \<le> length (oldBytes (view st1)) \<and> k' \<le> length (diffBytes (view st1))) =
                  (k \<le> length (oldBytes (view st)) \<and> k \<le> length (diffBytes (view st)))"
        using ev mk(3) by (auto simp: s(3) added_def)
      have "newAt (view st1) = newAt (added m (view st))" by (simp only: s(3))
      then have p1: "newPos st1 = newPos st + int m"
        by (simp add: view_fields added_def)
      show ?thesis
      proof (cases "k \<le> length (oldBytes (view st)) \<and> k \<le> length (diffBytes (view st))")
        case True
        then obtain st' where "addLoop B n (i + int B) st1 = Some (Inr st')" "state_ok B st'"
          "view st' = added k' (view st1)" using ih cond by auto
        then show ?thesis using True s(1) added_added [OF ev] by (simp add: s(3) mk(3))
      next
        case False
        then obtain f where "addLoop B n (i + int B) st1 = Some (Inl f)" "thrown f = UnexpectedEOF"
          "newPos st1 \<le> newPosThen f" "newPosThen f \<le> newPos st1 + int k'" using ih cond by auto
        then show ?thesis using False s(1) p1 mk(3) by auto
      qed
    qed
  qed
qed

lemma copied_0: "copied 0 v = v"
  by (simp add: copied_def)

lemma sought_0: "sought 0 v = v"
  by (simp add: sought_def)

lemma copied_copied: "copied k (copied m v) = copied (m + k) v"
  by (simp add: copied_def take_add add.commute [of k m])

lemma sought_sought: "sought k (sought m v) = sought (m + k) v"
  by (simp add: sought_def add.commute [of k m])

lemma copyLoop_exit: "n \<le> i \<Longrightarrow> copyLoop B n i st = Some (Inr st)"
  by (subst copyLoop.simps) simp

lemma seekLoop_exit: "n \<le> i \<Longrightarrow> seekLoop B n i st = Some (Inr st)"
  by (subst seekLoop.simps) simp

lemma copyLoop_step_ok:
  assumes B: "1 \<le> B" and ok: "state_ok B st" and lt: "i < n"
    and m: "m = nat (min (int B) (n - i))"
    and enough: "m \<le> length (remaining (extraReader st))"
  shows "\<exists>st1. copyLoop B n i st = copyLoop B n (i + int B) st1 \<and> state_ok B st1 \<and>
           view st1 = copied m (view st)"
proof -
  have mB: "m \<le> B" "0 < m" "int m = min (int B) (n - i)" using m B lt by auto
  have l1: "m \<le> length (temp1 st)" using ok mB by (simp add: state_ok_def)
  have oks: "byob_ok (extraReader st)" using ok by (simp add: state_ok_def)
  from read0(1) [OF oks l1 enough] obtain extra' where
    o: "read (extraReader st) (temp1 st) 0 m =
          Some (Inr (take m (remaining (extraReader st)) @ drop m (temp1 st), extra'))"
       "remaining extra' = drop m (remaining (extraReader st))" "byob_ok extra'" by blast
  define t1 where "t1 = take m (remaining (extraReader st)) @ drop m (temp1 st)"
  have lt1: "length t1 = B" using ok enough l1 by (simp add: t1_def state_ok_def)
  have tk: "take m t1 = take m (remaining (extraReader st))" using enough by (simp add: t1_def)
  define st1 where
    "st1 = st\<lparr>extraReader := extra', temp1 := t1, newPos := newPos st + int m,
               yielded := yielded st @ [take m t1]\<rparr>"
  have step: "copyLoop B n i st = copyLoop B n (i + int B) st1"
    apply (subst copyLoop.simps)
    using lt mB(3) [symmetric] o(1)
    apply (simp add: Let_def st1_def t1_def)
    done
  have ok1: "state_ok B st1" using ok o(3) lt1 by (simp add: state_ok_def st1_def)
  have v1: "view st1 = copied m (view st)"
    using o(2) by (simp add: view_def st1_def tk copied_def)
  show ?thesis using step ok1 v1 by blast
qed

lemma copyLoop_step_eof:
  assumes B: "1 \<le> B" and ok: "state_ok B st" and lt: "i < n"
    and m: "m = nat (min (int B) (n - i))"
    and short: "length (remaining (extraReader st)) < m"
  shows "copyLoop B n i st = Some (Inl (failed UnexpectedEOF st))"
proof -
  have mB: "m \<le> B" "0 < m" "int m = min (int B) (n - i)" using m B lt by auto
  have l1: "m \<le> length (temp1 st)" using ok mB by (simp add: state_ok_def)
  have oks: "byob_ok (extraReader st)" using ok by (simp add: state_ok_def)
  have o: "read (extraReader st) (temp1 st) 0 m = Some (Inl UnexpectedEOF)"
    by (rule read0(2) [OF oks l1 short])
  show ?thesis
    apply (subst copyLoop.simps)
    using lt mB(3) [symmetric] o
    apply (simp add: Let_def)
    done
qed

lemma copyLoop_view:
  assumes B: "1 \<le> B" and ok: "state_ok B st" and k: "k = nat (n - i)"
  shows "if k \<le> length (extraBytes (view st))
         then \<exists>st'. copyLoop B n i st = Some (Inr st') \<and> state_ok B st' \<and> view st' = copied k (view st)
         else \<exists>f. copyLoop B n i st = Some (Inl f) \<and> thrown f = UnexpectedEOF \<and>
                  newPos st \<le> newPosThen f \<and> newPosThen f \<le> newPos st + int k"
  using ok k
proof (induction k arbitrary: i st rule: less_induct)
  case (less k)
  show ?case
  proof (cases "i < n")
    case False
    then have "k = 0" "n \<le> i" using less.prems by simp_all
    then show ?thesis using less.prems(1) by (simp add: copyLoop_exit copied_0)
  next
    case True
    define m where "m = nat (min (int B) (n - i))"
    define k' where "k' = nat (n - (i + int B))"
    have mk: "0 < m" "m \<le> k" "k = m + k'" "k' < k"
      using True B less.prems(2) by (auto simp: m_def k'_def)
    show ?thesis
    proof (cases "m \<le> length (remaining (extraReader st))")
      case False
      then have short: "length (remaining (extraReader st)) < m" by simp
      have "copyLoop B n i st = Some (Inl (failed UnexpectedEOF st))"
        by (rule copyLoop_step_eof [OF B less.prems(1) True m_def short])
      moreover have "\<not> k \<le> length (extraBytes (view st))"
        using False mk(2) by (simp add: view_fields)
      ultimately show ?thesis by (simp add: failed_def)
    next
      case enough: True
      from copyLoop_step_ok [OF B less.prems(1) True m_def enough] obtain st1 where
        s: "copyLoop B n i st = copyLoop B n (i + int B) st1" "state_ok B st1"
           "view st1 = copied m (view st)" by auto
      note ih = less.IH [OF mk(4) s(2) k'_def]
      have ev: "m \<le> length (extraBytes (view st))" using enough by (simp add: view_fields)
      have cond: "(k' \<le> length (extraBytes (view st1))) = (k \<le> length (extraBytes (view st)))"
        using ev mk(3) by (auto simp: s(3) copied_def)
      have "newAt (view st1) = newAt (copied m (view st))" by (simp only: s(3))
      then have p1: "newPos st1 = newPos st + int m"
        by (simp add: view_fields copied_def)
      show ?thesis
      proof (cases "k \<le> length (extraBytes (view st))")
        case True
        then obtain st' where "copyLoop B n (i + int B) st1 = Some (Inr st')" "state_ok B st'"
          "view st' = copied k' (view st1)" using ih cond by auto
        then show ?thesis using True s(1) by (simp add: s(3) mk(3) copied_copied)
      next
        case False
        then obtain f where "copyLoop B n (i + int B) st1 = Some (Inl f)" "thrown f = UnexpectedEOF"
          "newPos st1 \<le> newPosThen f" "newPosThen f \<le> newPos st1 + int k'" using ih cond by auto
        then show ?thesis using False s(1) p1 mk(3) by auto
      qed
    qed
  qed
qed

lemma seekLoop_step_ok:
  assumes B: "1 \<le> B" and ok: "state_ok B st" and lt: "i < n"
    and m: "m = nat (min (int B) (n - i))"
    and enough: "m \<le> length (remaining (oldReader st))"
  shows "\<exists>st1. seekLoop B n i st = seekLoop B n (i + int B) st1 \<and> state_ok B st1 \<and>
           view st1 = sought m (view st)"
proof -
  have mB: "m \<le> B" "0 < m" "int m = min (int B) (n - i)" using m B lt by auto
  have l1: "m \<le> length (temp1 st)" using ok mB by (simp add: state_ok_def)
  have oks: "byob_ok (oldReader st)" using ok by (simp add: state_ok_def)
  from read0(1) [OF oks l1 enough] obtain old' where
    o: "read (oldReader st) (temp1 st) 0 m =
          Some (Inr (take m (remaining (oldReader st)) @ drop m (temp1 st), old'))"
       "remaining old' = drop m (remaining (oldReader st))" "byob_ok old'" by blast
  define t1 where "t1 = take m (remaining (oldReader st)) @ drop m (temp1 st)"
  have lt1: "length t1 = B" using ok enough l1 by (simp add: t1_def state_ok_def)
  define st1 where
    "st1 = st\<lparr>oldReader := old', temp1 := t1, oldPos := oldPos st + int m\<rparr>"
  have step: "seekLoop B n i st = seekLoop B n (i + int B) st1"
    apply (subst seekLoop.simps)
    using lt mB(3) [symmetric] o(1)
    apply (simp add: Let_def st1_def t1_def)
    done
  have ok1: "state_ok B st1" using ok o(3) lt1 by (simp add: state_ok_def st1_def)
  have v1: "view st1 = sought m (view st)"
    using o(2) by (simp add: view_def st1_def sought_def)
  show ?thesis using step ok1 v1 by blast
qed

lemma seekLoop_step_eof:
  assumes B: "1 \<le> B" and ok: "state_ok B st" and lt: "i < n"
    and m: "m = nat (min (int B) (n - i))"
    and short: "length (remaining (oldReader st)) < m"
  shows "seekLoop B n i st = Some (Inl (failed UnexpectedEOF st))"
proof -
  have mB: "m \<le> B" "0 < m" "int m = min (int B) (n - i)" using m B lt by auto
  have l1: "m \<le> length (temp1 st)" using ok mB by (simp add: state_ok_def)
  have oks: "byob_ok (oldReader st)" using ok by (simp add: state_ok_def)
  have o: "read (oldReader st) (temp1 st) 0 m = Some (Inl UnexpectedEOF)"
    by (rule read0(2) [OF oks l1 short])
  show ?thesis
    apply (subst seekLoop.simps)
    using lt mB(3) [symmetric] o
    apply (simp add: Let_def)
    done
qed

lemma seekLoop_view:
  assumes B: "1 \<le> B" and ok: "state_ok B st" and k: "k = nat (n - i)"
  shows "if k \<le> length (oldBytes (view st))
         then \<exists>st'. seekLoop B n i st = Some (Inr st') \<and> state_ok B st' \<and> view st' = sought k (view st)
         else \<exists>f. seekLoop B n i st = Some (Inl f) \<and> thrown f = UnexpectedEOF \<and>
                  newPosThen f = newPos st"
  using ok k
proof (induction k arbitrary: i st rule: less_induct)
  case (less k)
  show ?case
  proof (cases "i < n")
    case False
    then have "k = 0" "n \<le> i" using less.prems by simp_all
    then show ?thesis using less.prems(1) by (simp add: seekLoop_exit sought_0)
  next
    case True
    define m where "m = nat (min (int B) (n - i))"
    define k' where "k' = nat (n - (i + int B))"
    have mk: "0 < m" "m \<le> k" "k = m + k'" "k' < k"
      using True B less.prems(2) by (auto simp: m_def k'_def)
    show ?thesis
    proof (cases "m \<le> length (remaining (oldReader st))")
      case False
      then have short: "length (remaining (oldReader st)) < m" by simp
      have "seekLoop B n i st = Some (Inl (failed UnexpectedEOF st))"
        by (rule seekLoop_step_eof [OF B less.prems(1) True m_def short])
      moreover have "\<not> k \<le> length (oldBytes (view st))"
        using False mk(2) by (simp add: view_fields)
      ultimately show ?thesis by (simp add: failed_def)
    next
      case enough: True
      from seekLoop_step_ok [OF B less.prems(1) True m_def enough] obtain st1 where
        s: "seekLoop B n i st = seekLoop B n (i + int B) st1" "state_ok B st1"
           "view st1 = sought m (view st)" by auto
      note ih = less.IH [OF mk(4) s(2) k'_def]
      have ev: "m \<le> length (oldBytes (view st))" using enough by (simp add: view_fields)
      have cond: "(k' \<le> length (oldBytes (view st1))) = (k \<le> length (oldBytes (view st)))"
        using ev mk(3) by (auto simp: s(3) sought_def)
      have "newAt (view st1) = newAt (sought m (view st))" by (simp only: s(3))
      then have p1: "newPos st1 = newPos st"
        by (simp add: view_fields sought_def)
      show ?thesis
      proof (cases "k \<le> length (oldBytes (view st))")
        case True
        then obtain st' where "seekLoop B n (i + int B) st1 = Some (Inr st')" "state_ok B st'"
          "view st' = sought k' (view st1)" using ih cond by auto
        then show ?thesis using True s(1) by (simp add: s(3) mk(3) sought_sought)
      next
        case False
        then obtain f where "seekLoop B n (i + int B) st1 = Some (Inl f)" "thrown f = UnexpectedEOF"
          "newPosThen f = newPos st1" using ih cond by auto
        then show ?thesis using False s(1) p1 by auto
      qed
    qed
  qed
qed

subsection \<open>One turn of the loop, and the loop\<close>

lemma readControlHeader_view:
  assumes "byob_ok r"
  shows "24 \<le> length (remaining r) \<Longrightarrow>
           \<exists>r'. readControlHeader r = Some (Inr (decodeControl (take 24 (remaining r)), r')) \<and>
                remaining r' = drop 24 (remaining r) \<and> byob_ok r'"
    and "length (remaining r) < 24 \<Longrightarrow> readControlHeader r = Some (Inl UnexpectedEOF)"
proof -
  have l: "24 \<le> length (replicate 24 (0::byte))" by simp
  show "length (remaining r) < 24 \<Longrightarrow> readControlHeader r = Some (Inl UnexpectedEOF)"
    using read0(2) [OF assms l] by (simp add: readControlHeader_def)
  assume "24 \<le> length (remaining r)"
  from read0(1) [OF assms l this] obtain r' where
    "read r (replicate 24 0) 0 24 = Some (Inr (take 24 (remaining r) @ drop 24 (replicate 24 0), r'))"
    "remaining r' = drop 24 (remaining r)" "byob_ok r'" by blast
  then show "\<exists>r'. readControlHeader r = Some (Inr (decodeControl (take 24 (remaining r)), r')) \<and>
                remaining r' = drop 24 (remaining r) \<and> byob_ok r'"
    by (simp add: readControlHeader_def decodeControl_def)
qed

lemma iteration_view:
  assumes B: "1 \<le> B" and ok: "state_ok B st"
  shows "\<exists>r. iteration B N st = Some r \<and>
           (case r of
              Inr st' \<Rightarrow> turn N (view st) = Inr (view st') \<and> state_ok B st'
            | Inl f \<Rightarrow> turn N (view st) = Inl (thrown f) \<and> newPos st \<le> newPosThen f \<and>
                       (newPos st \<le> N \<longrightarrow> newPosThen f \<le> N))"
proof (cases "length (remaining (controlReader st)) < 24")
  case True
  have "byob_ok (controlReader st)" using ok by (simp add: state_ok_def)
  from readControlHeader_view(2) [OF this True]
  show ?thesis using True by (simp add: iteration_def turn_def view_fields failed_def)
next
  case False
  then have c24: "24 \<le> length (remaining (controlReader st))" by simp
  have okc: "byob_ok (controlReader st)" using ok by (simp add: state_ok_def)
  define c where "c = decodeControl (take 24 (remaining (controlReader st)))"
  from readControlHeader_view(1) [OF okc c24] obtain cr where
    rc: "readControlHeader (controlReader st) = Some (Inr (c, cr))"
        "remaining cr = drop 24 (remaining (controlReader st))" "byob_ok cr"
    by (auto simp: c_def)
  define st0 where "st0 = st\<lparr>controlReader := cr\<rparr>"
  define v0 where "v0 = (view st)\<lparr>controlBytes := drop 24 (controlBytes (view st))\<rparr>"
  have ok0: "state_ok B st0" using ok rc(3) by (simp add: state_ok_def st0_def)
  have vw0: "view st0 = v0" using rc(2) by (simp add: view_def st0_def v0_def)
  have p0: "newPos st0 = newPos st" "newAt v0 = newPos st" by (simp_all add: st0_def v0_def view_def)
  have it: "iteration B N st =
      (if newPos st + addSize c > N \<or> addSize c < 0 then Some (Inl (failed CorruptPatch st0))
       else
         (case addLoop B (addSize c) 0 st0 of
            None \<Rightarrow> None
          | Some (Inl f) \<Rightarrow> Some (Inl f)
          | Some (Inr st1) \<Rightarrow>
              if newPos st1 + copySize c > N \<or> copySize c < 0
              then Some (Inl (failed CorruptPatch st1))
              else
                (case copyLoop B (copySize c) 0 st1 of
                   None \<Rightarrow> None
                 | Some (Inl f) \<Rightarrow> Some (Inl f)
                 | Some (Inr st2) \<Rightarrow>
                     if seekSize c < 0 then Some (Inl (failed CorruptPatch st2))
                     else seekLoop B (seekSize c) 0 st2)))"
    by (simp add: iteration_def rc(1) Let_def st0_def)
  have tn: "turn N (view st) =
      (if newAt v0 + addSize c > N \<or> addSize c < 0 then Inl CorruptPatch
       else if \<not> (nat (addSize c) \<le> length (oldBytes v0) \<and>
                   nat (addSize c) \<le> length (diffBytes v0))
       then Inl UnexpectedEOF
       else
         (let v1 = added (nat (addSize c)) v0
          in if newAt v1 + copySize c > N \<or> copySize c < 0 then Inl CorruptPatch
             else if \<not> nat (copySize c) \<le> length (extraBytes v1) then Inl UnexpectedEOF
             else
               (let v2 = copied (nat (copySize c)) v1
                in if seekSize c < 0 then Inl CorruptPatch
                   else if \<not> nat (seekSize c) \<le> length (oldBytes v2) then Inl UnexpectedEOF
                   else Inr (sought (nat (seekSize c)) v2))))"
    using c24 by (simp add: turn_def view_fields c_def v0_def Let_def)
  show ?thesis
  proof (cases "newPos st + addSize c > N \<or> addSize c < 0")
    case True
    then show ?thesis by (simp add: it tn p0 failed_def st0_def)
  next
    case chkA: False
    then have a0: "0 \<le> addSize c" "newPos st + addSize c \<le> N" by simp_all
    note al = addLoop_view [OF B ok0, of "nat (addSize c)" "addSize c" 0, simplified vw0]
    show ?thesis
    proof (cases "nat (addSize c) \<le> length (oldBytes v0) \<and> nat (addSize c) \<le> length (diffBytes v0)")
      case False
      then obtain f where f: "addLoop B (addSize c) 0 st0 = Some (Inl f)" "thrown f = UnexpectedEOF"
        "newPos st0 \<le> newPosThen f" "newPosThen f \<le> newPos st0 + int (nat (addSize c))"
        using al by auto
      then show ?thesis using chkA False a0 by (simp add: it tn p0)
    next
      case enoughA: True
      then obtain st1 where s1: "addLoop B (addSize c) 0 st0 = Some (Inr st1)" "state_ok B st1"
        "view st1 = added (nat (addSize c)) v0" using al by auto
      define v1 where "v1 = added (nat (addSize c)) v0"
      have "newAt (view st1) = newAt v1" by (simp only: s1(3) v1_def)
      then have p1: "newPos st1 = newPos st + addSize c" "newAt v1 = newPos st + addSize c"
        using a0 by (simp_all add: view_fields v1_def added_def p0)
      have vw1: "view st1 = v1" by (simp add: s1(3) v1_def)
      show ?thesis
      proof (cases "newPos st1 + copySize c > N \<or> copySize c < 0")
        case True
        then show ?thesis using chkA enoughA a0
          by (simp add: it tn p0 s1(1) p1 failed_def Let_def flip: v1_def)
      next
        case chkC: False
        then have c0: "0 \<le> copySize c" "newPos st1 + copySize c \<le> N" by simp_all
        note cl = copyLoop_view [OF B s1(2), of "nat (copySize c)" "copySize c" 0, simplified vw1]
        show ?thesis
        proof (cases "nat (copySize c) \<le> length (extraBytes v1)")
          case False
          then obtain f where f: "copyLoop B (copySize c) 0 st1 = Some (Inl f)"
            "thrown f = UnexpectedEOF" "newPos st1 \<le> newPosThen f"
            "newPosThen f \<le> newPos st1 + int (nat (copySize c))"
            using cl by auto
          then show ?thesis using chkA enoughA chkC False a0 c0
            by (simp add: it tn p0 s1(1) p1 Let_def flip: v1_def)
        next
          case enoughC: True
          then obtain st2 where s2: "copyLoop B (copySize c) 0 st1 = Some (Inr st2)"
            "state_ok B st2" "view st2 = copied (nat (copySize c)) v1" using cl by auto
          define v2 where "v2 = copied (nat (copySize c)) v1"
          have "newAt (view st2) = newAt v2" by (simp only: s2(3) v2_def)
          then have p2: "newPos st2 = newPos st1 + copySize c"
            using c0 by (simp add: view_fields v2_def copied_def p1)
          have vw2: "view st2 = v2" by (simp add: s2(3) v2_def)
          show ?thesis
          proof (cases "seekSize c < 0")
            case True
            then show ?thesis using chkA enoughA chkC enoughC a0 c0
              by (simp add: it tn p0 s1(1) p1 s2(1) p2 failed_def Let_def flip: v1_def v2_def)
          next
            case chkS: False
            note sl = seekLoop_view [OF B s2(2), of "nat (seekSize c)" "seekSize c" 0, simplified vw2]
            show ?thesis
            proof (cases "nat (seekSize c) \<le> length (oldBytes v2)")
              case False
              then obtain f where f: "seekLoop B (seekSize c) 0 st2 = Some (Inl f)"
                "thrown f = UnexpectedEOF" "newPosThen f = newPos st2"
                using sl by auto
              then show ?thesis using chkA enoughA chkC enoughC chkS False a0 c0
                by (simp add: it tn p0 s1(1) p1 s2(1) p2 Let_def flip: v1_def v2_def)
            next
              case True
              then obtain st3 where s3: "seekLoop B (seekSize c) 0 st2 = Some (Inr st3)"
                "state_ok B st3" "view st3 = sought (nat (seekSize c)) v2" using sl by auto
              then show ?thesis using chkA enoughA chkC enoughC chkS True a0 c0
                by (simp add: it tn p0 s1(1) p1 s2(1) p2 Let_def flip: v1_def v2_def)
            qed
          qed
        qed
      qed
    qed
  qed
qed

lemma turn_Inr_conds:
  assumes "turn N v = Inr v'"
  defines "c \<equiv> decodeControl (take 24 (controlBytes v))"
  defines "v0 \<equiv> v\<lparr>controlBytes := drop 24 (controlBytes v)\<rparr>"
  defines "v1 \<equiv> added (nat (addSize c)) v0"
  defines "v2 \<equiv> copied (nat (copySize c)) v1"
  shows "24 \<le> length (controlBytes v)"
    and "0 \<le> addSize c \<and> newAt v0 + addSize c \<le> N"
    and "nat (addSize c) \<le> length (oldBytes v0) \<and> nat (addSize c) \<le> length (diffBytes v0)"
    and "0 \<le> copySize c \<and> newAt v1 + copySize c \<le> N"
    and "nat (copySize c) \<le> length (extraBytes v1)"
    and "0 \<le> seekSize c"
    and "nat (seekSize c) \<le> length (oldBytes v2)"
    and "v' = sought (nat (seekSize c)) v2"
proof -
  note t = assms(1) [unfolded turn_def Let_def, folded c_def, folded v0_def, folded v1_def,
      folded v2_def]
  show 1: "24 \<le> length (controlBytes v)"
    using t by (cases "length (controlBytes v) < 24") simp_all
  then have n1: "\<not> length (controlBytes v) < 24" by simp
  note t1 = t [unfolded if_not_P [OF n1]]
  show 2: "0 \<le> addSize c \<and> newAt v0 + addSize c \<le> N"
    using t1 by (cases "N < newAt v0 + addSize c \<or> addSize c < 0") auto
  then have n2: "\<not> (N < newAt v0 + addSize c \<or> addSize c < 0)" by auto
  note t2 = t1 [unfolded if_not_P [OF n2]]
  show 3: "nat (addSize c) \<le> length (oldBytes v0) \<and> nat (addSize c) \<le> length (diffBytes v0)"
    using t2 by (cases "nat (addSize c) \<le> length (oldBytes v0) \<and>
        nat (addSize c) \<le> length (diffBytes v0)") simp_all
  then have n3: "\<not> \<not> (nat (addSize c) \<le> length (oldBytes v0) \<and>
      nat (addSize c) \<le> length (diffBytes v0))" by simp
  note t3 = t2 [unfolded if_not_P [OF n3]]
  show 4: "0 \<le> copySize c \<and> newAt v1 + copySize c \<le> N"
    using t3 by (cases "N < newAt v1 + copySize c \<or> copySize c < 0") auto
  then have n4: "\<not> (N < newAt v1 + copySize c \<or> copySize c < 0)" by auto
  note t4 = t3 [unfolded if_not_P [OF n4]]
  show 5: "nat (copySize c) \<le> length (extraBytes v1)"
    using t4 by (cases "nat (copySize c) \<le> length (extraBytes v1)") simp_all
  then have n5: "\<not> \<not> nat (copySize c) \<le> length (extraBytes v1)" by simp
  note t5 = t4 [unfolded if_not_P [OF n5]]
  show 6: "0 \<le> seekSize c"
    using t5 by (cases "seekSize c < 0") simp_all
  then have n6: "\<not> seekSize c < 0" by simp
  note t6 = t5 [unfolded if_not_P [OF n6]]
  show 7: "nat (seekSize c) \<le> length (oldBytes v2)"
    using t6 by (cases "nat (seekSize c) \<le> length (oldBytes v2)") simp_all
  then have n7: "\<not> \<not> nat (seekSize c) \<le> length (oldBytes v2)" by simp
  note t7 = t6 [unfolded if_not_P [OF n7]]
  show "v' = sought (nat (seekSize c)) v2" using t7 by simp
qed

lemma turn_Inr:
  assumes "turn N v = Inr v'"
  defines "c \<equiv> decodeControl (take 24 (controlBytes v))"
  shows "24 \<le> length (controlBytes v)" "controlBytes v' = drop 24 (controlBytes v)"
    "0 \<le> addSize c" "0 \<le> copySize c" "0 \<le> seekSize c"
    "newAt v + addSize c \<le> N" "newAt v + addSize c + copySize c \<le> N"
    "newAt v' = newAt v + addSize c + copySize c"
    "oldAt v' = oldAt v + addSize c + seekSize c"
    "nat (addSize c) + nat (seekSize c) \<le> length (oldBytes v)"
    "oldBytes v' = drop (nat (addSize c) + nat (seekSize c)) (oldBytes v)"
    "nat (addSize c) \<le> length (diffBytes v)" "diffBytes v' = drop (nat (addSize c)) (diffBytes v)"
    "nat (copySize c) \<le> length (extraBytes v)" "extraBytes v' = drop (nat (copySize c)) (extraBytes v)"
    "written v' = written v @
       map2 (+) (take (nat (addSize c)) (oldBytes v)) (take (nat (addSize c)) (diffBytes v)) @
       take (nat (copySize c)) (extraBytes v)"
proof -
  note k = turn_Inr_conds [OF assms(1), folded c_def]
  show "24 \<le> length (controlBytes v)" by (rule k(1))
  show "controlBytes v' = drop 24 (controlBytes v)"
    by (simp add: k(8) sought_def copied_def added_def)
  show "0 \<le> addSize c" "0 \<le> copySize c" "0 \<le> seekSize c" using k(2,4,6) by simp_all
  show "newAt v + addSize c \<le> N" using k(2) by simp
  show "newAt v + addSize c + copySize c \<le> N" using k(2,4) by (simp add: added_def)
  show "newAt v' = newAt v + addSize c + copySize c"
    using k(2,4) by (simp add: k(8) sought_def copied_def added_def)
  show "oldAt v' = oldAt v + addSize c + seekSize c"
    using k(2,6) by (simp add: k(8) sought_def copied_def added_def)
  show "nat (addSize c) + nat (seekSize c) \<le> length (oldBytes v)"
    using k(3,7) by (auto simp: copied_def added_def)
  show "oldBytes v' = drop (nat (addSize c) + nat (seekSize c)) (oldBytes v)"
    by (simp add: k(8) sought_def copied_def added_def add.commute)
  show "nat (addSize c) \<le> length (diffBytes v)" using k(3) by simp
  show "diffBytes v' = drop (nat (addSize c)) (diffBytes v)"
    by (simp add: k(8) sought_def copied_def added_def)
  show "nat (copySize c) \<le> length (extraBytes v)" using k(5) by (simp add: added_def)
  show "extraBytes v' = drop (nat (copySize c)) (extraBytes v)"
    by (simp add: k(8) sought_def copied_def added_def)
  show "written v' = written v @
       map2 (+) (take (nat (addSize c)) (oldBytes v)) (take (nat (addSize c)) (diffBytes v)) @
       take (nat (copySize c)) (extraBytes v)"
    by (simp add: k(8) sought_def copied_def added_def)
qed

text \<open>
  The \<^verbatim>\<open>while\<close> loop on views. A turn that succeeds consumes 24 bytes of the control
  stream, which is the measure of its termination.
\<close>

function run :: "int \<Rightarrow> view \<Rightarrow> error + view" where
  "run newSize' v =
     (if newAt v < newSize' then
        (case turn newSize' v of Inl e \<Rightarrow> Inl e | Inr v' \<Rightarrow> run newSize' v')
      else Inr v)"
  by pat_completeness auto

termination
proof (relation "measure (\<lambda>(n, v). length (controlBytes v))")
  show "wf (measure (\<lambda>(n, v). length (controlBytes v)))" by simp
next
  fix newSize' v x2
  assume "turn newSize' v = Inr x2"
  from turn_Inr(1,2) [OF this]
  show "((newSize', x2), (newSize', v)) \<in> measure (\<lambda>(n, v). length (controlBytes v))"
    by simp
qed

declare run.simps [simp del]

lemma patchLoop_view:
  assumes B: "1 \<le> B" and ok: "state_ok B st"
  shows "\<exists>r. patchLoop B N st = Some r \<and> seen r = run N (view st) \<and>
             (case r of Inr st' \<Rightarrow> state_ok B st'
              | Inl f \<Rightarrow> newPos st \<le> newPosThen f \<and> (newPos st \<le> N \<longrightarrow> newPosThen f \<le> N))"
  using ok
proof (induction "length (controlBytes (view st))" arbitrary: st rule: less_induct)
  case less
  show ?case
  proof (cases "newPos st < N")
    case False
    then have "patchLoop B N st = Some (Inr st)" by (subst patchLoop.simps) simp
    moreover have "run N (view st) = Inr (view st)"
      using False by (subst run.simps) (simp add: view_fields)
    ultimately show ?thesis using less.prems by (simp add: seen_def)
  next
    case True
    from iteration_view [OF B less.prems, of N] obtain r1 where
      r1: "iteration B N st = Some r1"
          "case r1 of
             Inr st' \<Rightarrow> turn N (view st) = Inr (view st') \<and> state_ok B st'
           | Inl f \<Rightarrow> turn N (view st) = Inl (thrown f) \<and> newPos st \<le> newPosThen f \<and>
                      (newPos st \<le> N \<longrightarrow> newPosThen f \<le> N)" by blast
    show ?thesis
    proof (cases r1)
      case (Inl f)
      then have "patchLoop B N st = Some (Inl f)"
        using True r1(1) by (subst patchLoop.simps) simp
      moreover have "run N (view st) = Inl (thrown f)"
        using True r1(2) Inl by (subst run.simps) (simp add: view_fields)
      ultimately show ?thesis using r1(2) Inl by (simp add: seen_def)
    next
      case (Inr st1)
      then have t: "turn N (view st) = Inr (view st1)" "state_ok B st1" using r1(2) by simp_all
      have step: "patchLoop B N st = patchLoop B N st1"
        using True r1(1) Inr by (subst patchLoop.simps) simp
      have rstep: "run N (view st) = run N (view st1)"
        using True t(1) by (subst run.simps) (simp add: view_fields)
      have dec: "length (controlBytes (view st1)) < length (controlBytes (view st))"
        using turn_Inr(1,2) [OF t(1)] by simp
      have mono: "newPos st \<le> newPos st1" "newPos st1 \<le> N"
        using turn_Inr(3,4,7,8) [OF t(1)] by (simp_all add: view_fields)
      from less.hyps [OF dec t(2)] obtain r where
        r: "patchLoop B N st1 = Some r" "seen r = run N (view st1)"
           "case r of Inr st' \<Rightarrow> state_ok B st'
            | Inl f \<Rightarrow> newPos st1 \<le> newPosThen f \<and> (newPos st1 \<le> N \<longrightarrow> newPosThen f \<le> N)"
        by blast
      show ?thesis
      proof (cases r)
        case (Inl f)
        then show ?thesis using r mono by (simp add: step rstep)
      next
        case (Inr st')
        then show ?thesis using r by (simp add: step rstep)
      qed
    qed
  qed
qed

lemmas eval_defs = bspatch_def readHeader_def readControlHeader_def read.simps subarrayLength_def
  setBytes_def emulateBYOB_def emulateBYOB_read_def refill_def chunkRead_def copyOut_def
  getBYOBReader_def typedArrayStreamReader_def stored_def remaining_def
  getInt64_def at_def shl_def getAsciiString_def MAGIC_def failed_def
  iteration_def patchLoop.simps addLoop.simps copyLoop.simps seekLoop.simps add_def
  CorruptPatch_def UnexpectedEOF_def Let_def

subsection \<open>The claims about the engine\<close>

lemma magic_chars:
  "map (\<lambda>b. char_of (unat b)) [0x42 :: byte, 0x53, 0x44, 0x49, 0x46, 0x46, 0x34, 0x30] = ''BSDIFF40''"
  by code_simp

lemma addLoop_success:
  assumes "1 \<le> B" "state_ok B st" "0 \<le> n"
    "nat n \<le> length (remaining (oldReader st))" "nat n \<le> length (remaining (diffReader st))"
  shows "\<exists>st'. addLoop B n 0 st = Some (Inr st') \<and> state_ok B st' \<and>
           view st' = added (nat n) (view st)"
  using addLoop_view [OF assms(1,2), of "nat n" n 0] assms(3,4,5) by (simp add: view_fields)

lemma unat_byte_add: "unat (a + b) = (unat a + unat b) mod 256" for a b :: byte
  by (simp add: unat_word_ariths)

text \<open>
  C6. The add phase of a control record with \<open>addSize = n\<close>, for any buffer size of at least
  1, when the old source and the diff stream both hold \<open>n\<close> more bytes: the loop returns, the
  bytes it yields are \<open>n\<close> bytes of which the one at position \<open>j\<close> is the sum modulo 256 of
  byte \<open>j\<close> of the old source and byte \<open>j\<close> of the diff stream, exactly \<open>n\<close> bytes are taken from
  each of the two readers, the extra and control streams are untouched, and both positions
  advance by \<open>n\<close>.
\<close>

theorem add_phase_bytewise:
  assumes "1 \<le> B" "state_ok B st" "0 \<le> n"
    and "nat n \<le> length (remaining (oldReader st))"
    and "nat n \<le> length (remaining (diffReader st))"
  shows "\<exists>st' out. addLoop B n 0 st = Some (Inr st') \<and>
           concat (yielded st') = concat (yielded st) @ out \<and> length out = nat n \<and>
           (\<forall>j < nat n. unat (out ! j) =
              (unat (remaining (oldReader st) ! j) + unat (remaining (diffReader st) ! j)) mod 256) \<and>
           remaining (oldReader st') = drop (nat n) (remaining (oldReader st)) \<and>
           remaining (diffReader st') = drop (nat n) (remaining (diffReader st)) \<and>
           remaining (extraReader st') = remaining (extraReader st) \<and>
           remaining (controlReader st') = remaining (controlReader st) \<and>
           newPos st' = newPos st + n \<and> oldPos st' = oldPos st + n"
proof -
  from addLoop_success [OF assms] obtain st' where
    s: "addLoop B n 0 st = Some (Inr st')" "view st' = added (nat n) (view st)" by blast
  define out where
    "out = map2 (+) (take (nat n) (remaining (oldReader st))) (take (nat n) (remaining (diffReader st)))"
  have f: "oldBytes (view st') = oldBytes (added (nat n) (view st))"
    "diffBytes (view st') = diffBytes (added (nat n) (view st))"
    "extraBytes (view st') = extraBytes (added (nat n) (view st))"
    "controlBytes (view st') = controlBytes (added (nat n) (view st))"
    "newAt (view st') = newAt (added (nat n) (view st))"
    "oldAt (view st') = oldAt (added (nat n) (view st))"
    "written (view st') = written (added (nat n) (view st))"
    by (simp_all only: s(2))
  have l: "length out = nat n" using assms(4,5) by (simp add: out_def)
  have v: "unat (out ! j) =
             (unat (remaining (oldReader st) ! j) + unat (remaining (diffReader st) ! j)) mod 256"
    if "j < nat n" for j
    using that assms(4,5) by (simp add: out_def unat_byte_add)
  have w: "concat (yielded st') = concat (yielded st) @ out"
    using f(7) by (simp add: view_fields added_def out_def)
  show ?thesis
    using s(1) w l v f(1-6) assms(3) by (auto simp: view_fields added_def)
qed

lemma exampleState_ok: "state_ok 2 exampleState"
  by (simp add: state_ok_def exampleState_def emulateBYOB_def byob_ok_def)

text \<open>
  The add phase on the old bytes \<open>61 62 63\<close> and the diff bytes \<open>01 01 FF\<close> with a buffer of
  two bytes.
\<close>

theorem add_phase_bytewise_witness:
  "(1::nat) \<le> 2 \<and> state_ok 2 exampleState \<and> (0::int) \<le> 3 \<and>
   nat 3 \<le> length (remaining (oldReader exampleState)) \<and>
   nat 3 \<le> length (remaining (diffReader exampleState)) \<and>
   (\<exists>st' out. addLoop 2 3 0 exampleState = Some (Inr st') \<and>
      concat (yielded st') = concat (yielded exampleState) @ out \<and> length out = nat 3 \<and>
      remaining (oldReader st') = drop (nat 3) (remaining (oldReader exampleState))) \<and>
   map_option (map_sum thrown yielded) (addLoop 2 3 0 exampleState) =
     Some (Inr [[0x62, 0x63], [0x62]])"
proof -
  have h: "(1::nat) \<le> 2" "state_ok 2 exampleState" "(0::int) \<le> 3"
    "nat 3 \<le> length (remaining (oldReader exampleState))"
    "nat 3 \<le> length (remaining (diffReader exampleState))"
    by (simp_all add: exampleState_ok) (simp_all add: exampleState_def emulateBYOB_def remaining_def)
  have e: "map_option (map_sum thrown yielded) (addLoop 2 3 0 exampleState) =
     Some (Inr [[0x62, 0x63], [0x62]])"
    by (simp add: exampleState_def eval_defs upt_rec)
  from add_phase_bytewise [OF h] obtain st' out where
    "addLoop 2 3 0 exampleState = Some (Inr st')"
    "concat (yielded st') = concat (yielded exampleState) @ out" "length out = nat 3"
    "remaining (oldReader st') = drop (nat 3) (remaining (oldReader exampleState))" by blast
  then show ?thesis using h e by blast
qed

lemma readControlHeader_Inr:
  assumes "byob_ok r" "readControlHeader r = Some (Inr (c, r'))"
  shows "24 \<le> length (remaining r)" "c = decodeControl (take 24 (remaining r))"
proof -
  show l: "24 \<le> length (remaining r)"
  proof (rule ccontr)
    assume "\<not> 24 \<le> length (remaining r)"
    then have "length (remaining r) < 24" by simp
    from readControlHeader_view(2) [OF assms(1) this] assms(2) show False by simp
  qed
  from readControlHeader_view(1) [OF assms(1) l] assms(2)
  show "c = decodeControl (take 24 (remaining r))" by auto
qed




lemma read_returns:
  assumes "byob_ok r" "n \<le> length buf"
  shows "read r buf 0 n = Some (Inl UnexpectedEOF) \<or>
         (\<exists>b r'. read r buf 0 n = Some (Inr (b, r')) \<and> byob_ok r')"
  using read0 [OF assms] by (cases "n \<le> length (remaining r)") auto

lemma initial_ok:
  "1 \<le> B \<Longrightarrow> byob_ok p \<Longrightarrow>
   state_ok B \<lparr>oldReader = emulateBYOB old, controlReader = getBYOBReader cs,
               diffReader = getBYOBReader ds, extraReader = getBYOBReader es,
               temp1 = replicate B 0, temp2 = replicate B 0, newPos = 0, oldPos = 0, yielded = []\<rparr>"
  by (simp add: state_ok_def getBYOBReader_def emulateBYOB_def byob_ok_def)







text \<open>
  C4. The claim does not hold of the code, because of \<open>getInt64\<close> (see C1). The header below
  has the right magic and the \<^verbatim>\<open>controlSize\<close> bytes \<open>01 00 00 00 00 00 00 80\<close>: sign bit set,
  magnitude 1, that is \<open>-1\<close> on the wire. The code decodes 1, reads one byte of control data
  and, \<^verbatim>\<open>newSize\<close> being 0, finishes without an error and without output, for every buffer
  size and every decompressor.
\<close>

theorem negative_header_size_accepted:
  "bspatch B bz [] [[0x42, 0x53, 0x44, 0x49, 0x46, 0x46, 0x34, 0x30,
                     1, 0, 0, 0, 0, 0, 0, 0x80,
                     0, 0, 0, 0, 0, 0, 0, 0,
                     0, 0, 0, 0, 0, 0, 0, 0,
                     0]] = Some (Inr [])"
  using magic_chars by (simp add: eval_defs upt_rec)

text \<open>
  The same patch with the program's buffer size and the identity container: the header is
  accepted, and the field that was accepted decodes to 1.
\<close>

theorem negative_header_size_accepted_witness:
  "bspatch BUFFER_SIZE stored [] [[0x42, 0x53, 0x44, 0x49, 0x46, 0x46, 0x34, 0x30,
                                   1, 0, 0, 0, 0, 0, 0, 0x80,
                                   0, 0, 0, 0, 0, 0, 0, 0,
                                   0, 0, 0, 0, 0, 0, 0, 0,
                                   0]] = Some (Inr []) \<and>
   getInt64 [1, 0, 0, 0, 0, 0, 0, 0x80] 0 = 1"
  using negative_header_size_accepted [of BUFFER_SIZE stored]
  by (simp add: getInt64_def at_def shl_def)

lemma turn_corrupt_add:
  assumes "24 \<le> length (controlBytes v)"
  defines "c \<equiv> decodeControl (take 24 (controlBytes v))"
  assumes "addSize c < 0 \<or> N < newAt v + addSize c"
  shows "turn N v = Inl CorruptPatch"
  using assms(1,3) unfolding c_def by (auto simp: turn_def Let_def)

lemma turn_corrupt_copy:
  assumes "24 \<le> length (controlBytes v)"
  defines "c \<equiv> decodeControl (take 24 (controlBytes v))"
  assumes "0 \<le> addSize c" "newAt v + addSize c \<le> N"
    "nat (addSize c) \<le> length (oldBytes v)" "nat (addSize c) \<le> length (diffBytes v)"
    "copySize c < 0 \<or> N < newAt v + addSize c + copySize c"
  shows "turn N v = Inl CorruptPatch"
proof -
  define v0 where "v0 = v\<lparr>controlBytes := drop 24 (controlBytes v)\<rparr>"
  define v1 where "v1 = added (nat (addSize c)) v0"
  have l: "\<not> length (controlBytes v) < 24" using assms(1) by simp
  have a: "\<not> (N < newAt v0 + addSize c \<or> addSize c < 0)" using assms(3,4) by (auto simp: v0_def)
  have e: "\<not> \<not> (nat (addSize c) \<le> length (oldBytes v0) \<and> nat (addSize c) \<le> length (diffBytes v0))"
    using assms(5,6) by (simp add: v0_def)
  have b: "N < newAt v1 + copySize c \<or> copySize c < 0"
    using assms(3,7) by (auto simp: v1_def v0_def added_def)
  have "turn N v =
      (if length (controlBytes v) < 24 then Inl UnexpectedEOF
       else if N < newAt v0 + addSize c \<or> addSize c < 0 then Inl CorruptPatch
       else if \<not> (nat (addSize c) \<le> length (oldBytes v0) \<and> nat (addSize c) \<le> length (diffBytes v0))
       then Inl UnexpectedEOF
       else if N < newAt v1 + copySize c \<or> copySize c < 0 then Inl CorruptPatch
       else turn N v)"
    unfolding c_def v1_def v0_def by (simp add: turn_def Let_def)
  then show ?thesis
    by (simp only: l a e b if_False if_True)
qed

lemma iteration_fails_with:
  assumes "1 \<le> B" "state_ok B st" "turn N (view st) = Inl e"
  shows "\<exists>f. iteration B N st = Some (Inl f) \<and> thrown f = e"
proof -
  from iteration_view [OF assms(1,2), of N] obtain r where
    r: "iteration B N st = Some r"
       "case r of Inr st' \<Rightarrow> turn N (view st) = Inr (view st') \<and> state_ok B st'
        | Inl f \<Rightarrow> turn N (view st) = Inl (thrown f) \<and> newPos st \<le> newPosThen f \<and>
                   (newPos st \<le> N \<longrightarrow> newPosThen f \<le> N)" by blast
  show ?thesis
  proof (cases r)
    case (Inl f)
    then show ?thesis using r assms(3) by simp
  next
    case (Inr st')
    then show ?thesis using r assms(3) by simp
  qed
qed

lemma iteration_cases:
  assumes "1 \<le> B" "state_ok B st" "newPos st \<le> N"
  shows "\<exists>r. iteration B N st = Some r \<and>
           (case r of
              Inr st' \<Rightarrow>
                (\<exists>c cr. readControlHeader (controlReader st) = Some (Inr (c, cr)) \<and>
                        0 \<le> addSize c \<and> 0 \<le> copySize c \<and>
                        newPos st' = newPos st + addSize c + copySize c \<and> newPos st' \<le> N)
            | Inl f \<Rightarrow> newPos st \<le> newPosThen f \<and> newPosThen f \<le> N)"
proof -
  from iteration_view [OF assms(1,2), of N] obtain r where
    r: "iteration B N st = Some r"
       "case r of Inr st' \<Rightarrow> turn N (view st) = Inr (view st') \<and> state_ok B st'
        | Inl f \<Rightarrow> turn N (view st) = Inl (thrown f) \<and> newPos st \<le> newPosThen f \<and>
                   (newPos st \<le> N \<longrightarrow> newPosThen f \<le> N)" by blast
  show ?thesis
  proof (cases r)
    case (Inl f)
    then show ?thesis using r assms(3) by simp
  next
    case (Inr st')
    then have t: "turn N (view st) = Inr (view st')" using r(2) by simp
    note ti = turn_Inr [OF t]
    have okc: "byob_ok (controlReader st)" using assms(2) by (simp add: state_ok_def)
    from readControlHeader_view(1) [OF okc] ti(1) obtain cr where
      "readControlHeader (controlReader st) =
         Some (Inr (decodeControl (take 24 (remaining (controlReader st))), cr))"
      by (auto simp: view_fields)
    then show ?thesis
      using r(1) Inr ti(3,4,7,8) by (auto simp: view_fields)
  qed
qed

text \<open>
  C3. The claim does not hold of the code, through the defect of \<open>getInt64\<close> (see C1 and C4):
  the guards \<^verbatim>\<open>addSize < 0\<close> and \<^verbatim>\<open>copySize < 0\<close> test the sizes as decoded. The control record
  of the first patch has the \<^verbatim>\<open>addSize\<close> bytes \<open>01 00 00 00 00 00 00 80\<close>: sign bit set,
  magnitude 1, that is \<open>-1\<close> on the wire. The code decodes 1, reads one byte of the old
  source and one of the diff stream and emits their sum; the run ends normally. The
  second patch has these bytes as \<^verbatim>\<open>copySize\<close>: one byte of the extra stream is emitted and
  the run ends normally. This holds for every buffer size of at least 1.
\<close>

theorem wire_negative_size_accepted:
  assumes "1 \<le> B"
  shows "bspatch B stored [[0x61]]
     [[0x42, 0x53, 0x44, 0x49, 0x46, 0x46, 0x34, 0x30,
       24, 0, 0, 0, 0, 0, 0, 0,   1, 0, 0, 0, 0, 0, 0, 0,   1, 0, 0, 0, 0, 0, 0, 0,
       1, 0, 0, 0, 0, 0, 0, 0x80, 0, 0, 0, 0, 0, 0, 0, 0,   0, 0, 0, 0, 0, 0, 0, 0,
       0]] =
     Some (Inr [[0x61]]) \<and>
   bspatch B stored [[0x61]]
     [[0x42, 0x53, 0x44, 0x49, 0x46, 0x46, 0x34, 0x30,
       24, 0, 0, 0, 0, 0, 0, 0,   0, 0, 0, 0, 0, 0, 0, 0,   1, 0, 0, 0, 0, 0, 0, 0,
       0, 0, 0, 0, 0, 0, 0, 0,    1, 0, 0, 0, 0, 0, 0, 0x80, 0, 0, 0, 0, 0, 0, 0, 0,
       0x7A]] =
     Some (Inr [[0x7A]])"
  using magic_chars assms by (simp add: eval_defs upt_rec min_def)

text \<open>
  The same two patches with the program's buffer size; the field that was accepted
  decodes to 1.
\<close>

theorem wire_negative_size_accepted_witness:
  "(1::nat) \<le> BUFFER_SIZE \<and>
   bspatch BUFFER_SIZE stored [[0x61]]
     [[0x42, 0x53, 0x44, 0x49, 0x46, 0x46, 0x34, 0x30,
       24, 0, 0, 0, 0, 0, 0, 0,   1, 0, 0, 0, 0, 0, 0, 0,   1, 0, 0, 0, 0, 0, 0, 0,
       1, 0, 0, 0, 0, 0, 0, 0x80, 0, 0, 0, 0, 0, 0, 0, 0,   0, 0, 0, 0, 0, 0, 0, 0,
       0]] =
     Some (Inr [[0x61]]) \<and>
   bspatch BUFFER_SIZE stored [[0x61]]
     [[0x42, 0x53, 0x44, 0x49, 0x46, 0x46, 0x34, 0x30,
       24, 0, 0, 0, 0, 0, 0, 0,   0, 0, 0, 0, 0, 0, 0, 0,   1, 0, 0, 0, 0, 0, 0, 0,
       0, 0, 0, 0, 0, 0, 0, 0,    1, 0, 0, 0, 0, 0, 0, 0x80, 0, 0, 0, 0, 0, 0, 0, 0,
       0x7A]] =
     Some (Inr [[0x7A]]) \<and>
   getInt64 [1, 0, 0, 0, 0, 0, 0, 0x80] 0 = 1"
proof -
  have b: "(1::nat) \<le> BUFFER_SIZE" by (simp add: BUFFER_SIZE_def)
  have g: "getInt64 [1, 0, 0, 0, 0, 0, 0, 0x80] 0 = 1" by (simp add: getInt64_def at_def shl_def)
  from wire_negative_size_accepted [OF b] b g show ?thesis by (intro conjI) simp_all
qed

text \<open>
  What holds of the loop, over the sizes as \<open>getInt64\<close> returns them. Let the loop start
  in a state with \<open>newPos \<le> newSize\<close> (in \<^verbatim>\<open>bspatch\<close>: \<open>newPos = 0\<close> and \<open>newSize \<ge> 0\<close>), with a
  buffer size of at least 1. The \<^verbatim>\<open>while\<close> loop returns; when it ends
  normally, \<open>newPos = newSize\<close>, and when it throws, \<open>newPos\<close> at the throw is still at most
  \<open>newSize\<close>; it ends at once when \<open>newPos = newSize\<close>. One turn of the loop returns too: when
  it ends normally it has read a control record with non-negative \<open>addSize\<close> and \<open>copySize\<close>
  and has advanced \<open>newPos\<close> by exactly \<open>addSize + copySize\<close>, to at most \<open>newSize\<close>. A record
  whose \<open>addSize\<close> is negative or would take \<open>newPos\<close> past \<open>newSize\<close> makes the turn throw
  \<^verbatim>\<open>Corrupt patch\<close>, and so does, once the add phase has found its bytes, a \<open>copySize\<close> that
  is negative or would take \<open>newPos\<close> past \<open>newSize\<close>.
\<close>

lemma patchLoop_newPos_bounded:
  assumes "1 \<le> B" "state_ok B st" "newPos st \<le> N"
  shows "(\<exists>r. patchLoop B N st = Some r \<and>
            (case r of Inr st' \<Rightarrow> newPos st' = N
             | Inl f \<Rightarrow> newPos st \<le> newPosThen f \<and> newPosThen f \<le> N)) \<and>
         (newPos st = N \<longrightarrow> patchLoop B N st = Some (Inr st)) \<and>
         (\<exists>r. iteration B N st = Some r \<and>
            (case r of
               Inr st' \<Rightarrow>
                 (\<exists>c cr. readControlHeader (controlReader st) = Some (Inr (c, cr)) \<and>
                         0 \<le> addSize c \<and> 0 \<le> copySize c \<and>
                         newPos st' = newPos st + addSize c + copySize c \<and> newPos st' \<le> N)
             | Inl f \<Rightarrow> newPos st \<le> newPosThen f \<and> newPosThen f \<le> N)) \<and>
         (\<forall>c cr. readControlHeader (controlReader st) = Some (Inr (c, cr)) \<longrightarrow>
            (addSize c < 0 \<or> N < newPos st + addSize c) \<longrightarrow>
            (\<exists>f. iteration B N st = Some (Inl f) \<and> thrown f = CorruptPatch)) \<and>
         (\<forall>c cr. readControlHeader (controlReader st) = Some (Inr (c, cr)) \<longrightarrow>
            0 \<le> addSize c \<and> newPos st + addSize c \<le> N \<and>
            nat (addSize c) \<le> length (remaining (oldReader st)) \<and>
            nat (addSize c) \<le> length (remaining (diffReader st)) \<longrightarrow>
            (copySize c < 0 \<or> N < newPos st + addSize c + copySize c) \<longrightarrow>
            (\<exists>f. iteration B N st = Some (Inl f) \<and> thrown f = CorruptPatch))"
proof (intro conjI allI impI)
  from patchLoop_view [OF assms(1,2), of N] obtain r where
    r: "patchLoop B N st = Some r" "seen r = run N (view st)"
       "case r of Inr st' \<Rightarrow> state_ok B st'
        | Inl f \<Rightarrow> newPos st \<le> newPosThen f \<and> (newPos st \<le> N \<longrightarrow> newPosThen f \<le> N)"
    by blast
  have fin: "newAt v' = N" if "run N v = Inr v'" "newAt v \<le> N" for v v'
    using that
  proof (induction N v rule: run.induct)
    case (1 N v)
    show ?case
    proof (cases "newAt v < N")
      case False
      then show ?thesis using "1.prems" by (simp add: run.simps [of N v])
    next
      case True
      then obtain v1 where t: "turn N v = Inr v1" "run N v1 = Inr v'"
        using "1.prems"(1) by (simp add: run.simps [of N v] split: sum.splits)
      have "newAt v1 \<le> N" using turn_Inr(7,8) [OF t(1)] by simp
      from "1.IH" [OF True t(1) t(2) this] show ?thesis .
    qed
  qed
  show "\<exists>r. patchLoop B N st = Some r \<and>
            (case r of Inr st' \<Rightarrow> newPos st' = N
             | Inl f \<Rightarrow> newPos st \<le> newPosThen f \<and> newPosThen f \<le> N)"
  proof (cases r)
    case (Inl f)
    then show ?thesis using r assms(3) by simp
  next
    case (Inr st')
    then have "run N (view st) = Inr (view st')" using r(2) by (simp add: seen_def)
    from fin [OF this] assms(3) have "newPos st' = N" by (simp add: view_fields)
    then show ?thesis using r(1) Inr by simp
  qed
next
  assume "newPos st = N"
  then show "patchLoop B N st = Some (Inr st)" by (subst patchLoop.simps) simp
next
  show "\<exists>r. iteration B N st = Some r \<and>
            (case r of
               Inr st' \<Rightarrow>
                 (\<exists>c cr. readControlHeader (controlReader st) = Some (Inr (c, cr)) \<and>
                         0 \<le> addSize c \<and> 0 \<le> copySize c \<and>
                         newPos st' = newPos st + addSize c + copySize c \<and> newPos st' \<le> N)
             | Inl f \<Rightarrow> newPos st \<le> newPosThen f \<and> newPosThen f \<le> N)"
    by (rule iteration_cases [OF assms])
next
  fix c cr
  assume rc: "readControlHeader (controlReader st) = Some (Inr (c, cr))"
    and bad: "addSize c < 0 \<or> N < newPos st + addSize c"
  have okc: "byob_ok (controlReader st)" using assms(2) by (simp add: state_ok_def)
  note k = readControlHeader_Inr [OF okc rc]
  have "turn N (view st) = Inl CorruptPatch"
    using turn_corrupt_add [of "view st" N] k bad by (simp add: view_fields)
  from iteration_fails_with [OF assms(1,2) this]
  show "\<exists>f. iteration B N st = Some (Inl f) \<and> thrown f = CorruptPatch" .
next
  fix c cr
  assume rc: "readControlHeader (controlReader st) = Some (Inr (c, cr))"
    and good: "0 \<le> addSize c \<and> newPos st + addSize c \<le> N \<and>
            nat (addSize c) \<le> length (remaining (oldReader st)) \<and>
            nat (addSize c) \<le> length (remaining (diffReader st))"
    and bad: "copySize c < 0 \<or> N < newPos st + addSize c + copySize c"
  have okc: "byob_ok (controlReader st)" using assms(2) by (simp add: state_ok_def)
  note k = readControlHeader_Inr [OF okc rc]
  have "turn N (view st) = Inl CorruptPatch"
    using turn_corrupt_copy [of "view st" N] k good bad by (simp add: view_fields)
  from iteration_fails_with [OF assms(1,2) this]
  show "\<exists>f. iteration B N st = Some (Inl f) \<and> thrown f = CorruptPatch" .
qed

lemma exampleRun_ok: "state_ok 2 exampleRun"
  by (simp add: state_ok_def exampleRun_def emulateBYOB_def byob_ok_def)

lemma exampleRun_result:
  "patchLoop 2 3 exampleRun =
     Some (Inr \<lparr>oldReader = \<lparr>streamReader = [], buffer = Some [0x61, 0x62, 0x63, 0x64], offset = 4\<rparr>,
                controlReader = \<lparr>streamReader = [],
                  buffer = Some [3, 0, 0, 0, 0, 0, 0, 0,  0, 0, 0, 0, 0, 0, 0, 0,
                                 1, 0, 0, 0, 0, 0, 0, 0], offset = 24\<rparr>,
                diffReader = \<lparr>streamReader = [], buffer = Some [0xFF], offset = 1\<rparr>,
                extraReader = \<lparr>streamReader = [], buffer = None, offset = 0\<rparr>,
                temp1 = [0x64, 0x63], temp2 = [0xFF, 1], newPos = 3, oldPos = 4,
                yielded = [[0x62, 0x63], [0x62]]\<rparr>)"
  by (simp add: exampleRun_def eval_defs upt_rec)

text \<open>
  A run of the loop with \<open>newSize = 3\<close> over one control record (\<open>addSize = 3\<close>,
  \<open>copySize = 0\<close>, \<open>seekSize = 1\<close>) and a buffer of two bytes.
\<close>

lemma patchLoop_newPos_bounded_example:
  "(1::nat) \<le> 2 \<and> state_ok 2 exampleRun \<and> newPos exampleRun \<le> 3 \<and>
   (\<exists>r. patchLoop 2 3 exampleRun = Some r \<and>
      (case r of Inr st' \<Rightarrow> newPos st' = 3
       | Inl f \<Rightarrow> newPos exampleRun \<le> newPosThen f \<and> newPosThen f \<le> 3)) \<and>
   map_option (map_sum thrown newPos) (patchLoop 2 3 exampleRun) = Some (Inr 3)"
proof -
  have h: "(1::nat) \<le> 2" "state_ok 2 exampleRun" "newPos exampleRun \<le> 3"
    by (simp_all add: exampleRun_ok) (simp add: exampleRun_def)
  from patchLoop_newPos_bounded [OF h]
  have "\<exists>r. patchLoop 2 3 exampleRun = Some r \<and>
      (case r of Inr st' \<Rightarrow> newPos st' = 3
       | Inl f \<Rightarrow> newPos exampleRun \<le> newPosThen f \<and> newPosThen f \<le> 3)" by blast
  then show ?thesis using h by (simp add: exampleRun_result)
qed

lemma oldAdvance_nonneg:
  "list_all (\<lambda>c. 0 \<le> addSize c \<and> 0 \<le> seekSize c) recs \<Longrightarrow> 0 \<le> oldAdvance recs"
  by (induction recs) (auto simp: oldAdvance_def)

lemma run_records:
  assumes "run N v = Inr v'"
  shows "\<exists>k. 24 * k \<le> length (controlBytes v) \<and>
           controlBytes v' = drop (24 * k) (controlBytes v) \<and>
           list_all (\<lambda>c. 0 \<le> addSize c \<and> 0 \<le> seekSize c) (recordsOf k (controlBytes v)) \<and>
           oldAt v' = oldAt v + oldAdvance (recordsOf k (controlBytes v)) \<and>
           nat (oldAdvance (recordsOf k (controlBytes v))) \<le> length (oldBytes v) \<and>
           oldBytes v' = drop (nat (oldAdvance (recordsOf k (controlBytes v)))) (oldBytes v)"
  using assms
proof (induction N v rule: run.induct)
  case (1 N v)
  show ?case
  proof (cases "newAt v < N")
    case False
    then have "v' = v" using "1.prems" by (simp add: run.simps [of N v])
    then show ?thesis by (intro exI [of _ 0]) (simp add: oldAdvance_def)
  next
    case True
    then obtain v1 where t: "turn N v = Inr v1" "run N v1 = Inr v'"
      using "1.prems"(1) by (simp add: run.simps [of N v] split: sum.splits)
    define c where "c = decodeControl (take 24 (controlBytes v))"
    note ti = turn_Inr [OF t(1), folded c_def]
    from "1.IH" [OF True t(1) t(2)] obtain k where
      k: "24 * k \<le> length (controlBytes v1)"
         "controlBytes v' = drop (24 * k) (controlBytes v1)"
         "list_all (\<lambda>c. 0 \<le> addSize c \<and> 0 \<le> seekSize c) (recordsOf k (controlBytes v1))"
         "oldAt v' = oldAt v1 + oldAdvance (recordsOf k (controlBytes v1))"
         "nat (oldAdvance (recordsOf k (controlBytes v1))) \<le> length (oldBytes v1)"
         "oldBytes v' = drop (nat (oldAdvance (recordsOf k (controlBytes v1)))) (oldBytes v1)"
      by blast
    define rest where "rest = recordsOf k (controlBytes v1)"
    have recs: "recordsOf (Suc k) (controlBytes v) = c # rest"
      by (simp add: c_def rest_def ti(2))
    have nn: "0 \<le> oldAdvance rest" using k(3) by (simp add: rest_def oldAdvance_nonneg)
    have adv: "oldAdvance (c # rest) = addSize c + seekSize c + oldAdvance rest"
      by (simp add: oldAdvance_def)
    have natadv: "nat (oldAdvance (c # rest)) = nat (addSize c) + nat (seekSize c) + nat (oldAdvance rest)"
      using ti(3,5) nn by (simp add: adv nat_add_distrib)
    have 1: "24 * Suc k \<le> length (controlBytes v)" using k(1) ti(1,2) by simp
    have 2: "controlBytes v' = drop (24 * Suc k) (controlBytes v)"
      using k(2) ti(2) by (simp add: add.commute)
    have 3: "list_all (\<lambda>c. 0 \<le> addSize c \<and> 0 \<le> seekSize c) (c # rest)"
      using k(3) ti(3,5) by (simp add: rest_def)
    have 4: "oldAt v' = oldAt v + oldAdvance (c # rest)"
      using k(4) ti(9) unfolding rest_def [symmetric] adv by simp
    have 5: "nat (oldAdvance (c # rest)) \<le> length (oldBytes v)"
      using k(5) ti(10,11) unfolding rest_def [symmetric] natadv by simp
    have 6: "oldBytes v' = drop (nat (oldAdvance (c # rest))) (oldBytes v)"
      using k(6) ti(11) unfolding rest_def [symmetric] natadv by (simp add: add.commute)
    show ?thesis
      using 1 2 3 4 5 6 by (intro exI [of _ "Suc k"]) (simp only: recs)
  qed
qed

lemma iteration_old:
  assumes "1 \<le> B" "state_ok B s" "iteration B N s = Some (Inr s1)"
  shows "oldPos s \<le> oldPos s1 \<and> nat (oldPos s1 - oldPos s) \<le> length (remaining (oldReader s)) \<and>
         remaining (oldReader s1) = drop (nat (oldPos s1 - oldPos s)) (remaining (oldReader s))"
proof -
  from iteration_view [OF assms(1,2), of N] assms(3)
  have t: "turn N (view s) = Inr (view s1)" by auto
  define c where "c = decodeControl (take 24 (controlBytes (view s)))"
  note ti = turn_Inr [OF t, folded c_def]
  have d: "nat (oldPos s1 - oldPos s) = nat (addSize c) + nat (seekSize c)"
    using ti(3,5,9) by (simp add: view_fields nat_add_distrib)
  show ?thesis
    using ti(3,5,9,10,11) by (simp add: d) (simp add: view_fields)
qed

lemma seekLoop_discards:
  assumes "1 \<le> B" "state_ok B s" "0 \<le> n" "seekLoop B n 0 s = Some (Inr s1)"
  shows "concat (yielded s1) = concat (yielded s) \<and> newPos s1 = newPos s \<and>
         oldPos s1 = oldPos s + n \<and> nat n \<le> length (remaining (oldReader s)) \<and>
         remaining (oldReader s1) = drop (nat n) (remaining (oldReader s))"
proof -
  note sl = seekLoop_view [OF assms(1,2), of "nat n" n 0]
  have le: "nat n \<le> length (oldBytes (view s))"
  proof (rule ccontr)
    assume "\<not> nat n \<le> length (oldBytes (view s))"
    then show False using sl assms(4) by auto
  qed
  then have v: "view s1 = sought (nat n) (view s)" using sl assms(4) by auto
  have f: "written (view s1) = written (sought (nat n) (view s))"
    "newAt (view s1) = newAt (sought (nat n) (view s))"
    "oldAt (view s1) = oldAt (sought (nat n) (view s))"
    "oldBytes (view s1) = oldBytes (sought (nat n) (view s))"
    by (simp_all only: v)
  show ?thesis using f le assms(3) by (simp add: view_fields sought_def)
qed

text \<open>
  C9. Let the \<^verbatim>\<open>while\<close> loop end normally, with a buffer size of at least 1. Then it has
  consumed some number \<open>k\<close> of control records, each with non-negative \<open>addSize\<close> and
  \<open>seekSize\<close>; \<open>oldPos\<close> has grown by the sum of their \<open>addSize + seekSize\<close>, and exactly that
  many bytes have been taken from the front of the old source. Every turn of the loop
  that ends normally leaves \<open>oldPos\<close> at least where it was and takes \<open>oldPos' - oldPos\<close>
  bytes from the front of the old source; a seek is a read of \<open>seekSize\<close> bytes of the old
  source that yields nothing. The engine never asks the old-source reader for anything
  but the next bytes.
\<close>

theorem old_source_read_forward_only:
  assumes "1 \<le> B" "state_ok B st" "patchLoop B N st = Some (Inr st')"
  shows "(\<exists>k. 24 * k \<le> length (remaining (controlReader st)) \<and>
            remaining (controlReader st') = drop (24 * k) (remaining (controlReader st)) \<and>
            list_all (\<lambda>c. 0 \<le> addSize c \<and> 0 \<le> seekSize c)
              (recordsOf k (remaining (controlReader st))) \<and>
            oldPos st' = oldPos st + oldAdvance (recordsOf k (remaining (controlReader st))) \<and>
            nat (oldAdvance (recordsOf k (remaining (controlReader st))))
              \<le> length (remaining (oldReader st)) \<and>
            remaining (oldReader st') =
              drop (nat (oldAdvance (recordsOf k (remaining (controlReader st)))))
                (remaining (oldReader st))) \<and>
         oldPos st \<le> oldPos st' \<and>
         (\<forall>s s1. state_ok B s \<longrightarrow> iteration B N s = Some (Inr s1) \<longrightarrow>
            oldPos s \<le> oldPos s1 \<and>
            nat (oldPos s1 - oldPos s) \<le> length (remaining (oldReader s)) \<and>
            remaining (oldReader s1) = drop (nat (oldPos s1 - oldPos s)) (remaining (oldReader s))) \<and>
         (\<forall>s s1 n. state_ok B s \<longrightarrow> 0 \<le> n \<longrightarrow> seekLoop B n 0 s = Some (Inr s1) \<longrightarrow>
            concat (yielded s1) = concat (yielded s) \<and> newPos s1 = newPos s \<and>
            oldPos s1 = oldPos s + n \<and> nat n \<le> length (remaining (oldReader s)) \<and>
            remaining (oldReader s1) = drop (nat n) (remaining (oldReader s)))"
proof -
  from patchLoop_view [OF assms(1,2), of N] assms(3)
  have r: "run N (view st) = Inr (view st')" by (auto simp: seen_def)
  from run_records [OF r] obtain k where
    k: "24 * k \<le> length (remaining (controlReader st))"
       "remaining (controlReader st') = drop (24 * k) (remaining (controlReader st))"
       "list_all (\<lambda>c. 0 \<le> addSize c \<and> 0 \<le> seekSize c) (recordsOf k (remaining (controlReader st)))"
       "oldPos st' = oldPos st + oldAdvance (recordsOf k (remaining (controlReader st)))"
       "nat (oldAdvance (recordsOf k (remaining (controlReader st))))
          \<le> length (remaining (oldReader st))"
       "remaining (oldReader st') =
          drop (nat (oldAdvance (recordsOf k (remaining (controlReader st)))))
            (remaining (oldReader st))"
    by (auto simp: view_fields)
  have mono: "oldPos st \<le> oldPos st'"
    using k(4) oldAdvance_nonneg [OF k(3)] by simp
  have it: "\<forall>s s1. state_ok B s \<longrightarrow> iteration B N s = Some (Inr s1) \<longrightarrow>
            oldPos s \<le> oldPos s1 \<and>
            nat (oldPos s1 - oldPos s) \<le> length (remaining (oldReader s)) \<and>
            remaining (oldReader s1) = drop (nat (oldPos s1 - oldPos s)) (remaining (oldReader s))"
    using iteration_old [OF assms(1)] by blast
  have sk: "\<forall>s s1 n. state_ok B s \<longrightarrow> 0 \<le> n \<longrightarrow> seekLoop B n 0 s = Some (Inr s1) \<longrightarrow>
            concat (yielded s1) = concat (yielded s) \<and> newPos s1 = newPos s \<and>
            oldPos s1 = oldPos s + n \<and> nat n \<le> length (remaining (oldReader s)) \<and>
            remaining (oldReader s1) = drop (nat n) (remaining (oldReader s))"
    using seekLoop_discards [OF assms(1)] by blast
  show ?thesis using k mono it sk by blast
qed

text \<open>
  The same run: one record with \<open>addSize = 3\<close> and \<open>seekSize = 1\<close> takes the four bytes of the
  old source.
\<close>

theorem old_source_read_forward_only_witness:
  "(1::nat) \<le> 2 \<and> state_ok 2 exampleRun \<and> patchLoop 2 3 exampleRun = Some (Inr exampleEnd) \<and>
   (\<exists>k. 24 * k \<le> length (remaining (controlReader exampleRun)) \<and>
        remaining (controlReader exampleEnd) = drop (24 * k) (remaining (controlReader exampleRun)) \<and>
        oldPos exampleEnd =
          oldPos exampleRun + oldAdvance (recordsOf k (remaining (controlReader exampleRun))) \<and>
        remaining (oldReader exampleEnd) =
          drop (nat (oldAdvance (recordsOf k (remaining (controlReader exampleRun)))))
            (remaining (oldReader exampleRun))) \<and>
   oldPos exampleRun \<le> oldPos exampleEnd \<and> oldPos exampleEnd = 4 \<and>
   remaining (oldReader exampleRun) = [0x61, 0x62, 0x63, 0x64] \<and>
   remaining (oldReader exampleEnd) = []"
proof -
  have h: "(1::nat) \<le> 2" "state_ok 2 exampleRun" "patchLoop 2 3 exampleRun = Some (Inr exampleEnd)"
    by (simp_all add: exampleRun_ok exampleRun_result exampleEnd_def)
  from old_source_read_forward_only [OF h]
  have "(\<exists>k. 24 * k \<le> length (remaining (controlReader exampleRun)) \<and>
        remaining (controlReader exampleEnd) = drop (24 * k) (remaining (controlReader exampleRun)) \<and>
        oldPos exampleEnd =
          oldPos exampleRun + oldAdvance (recordsOf k (remaining (controlReader exampleRun))) \<and>
        remaining (oldReader exampleEnd) =
          drop (nat (oldAdvance (recordsOf k (remaining (controlReader exampleRun)))))
            (remaining (oldReader exampleRun)))"
    "oldPos exampleRun \<le> oldPos exampleEnd"
    by blast+
  moreover have "oldPos exampleEnd = 4" "remaining (oldReader exampleRun) = [0x61, 0x62, 0x63, 0x64]"
    "remaining (oldReader exampleEnd) = []"
    by (simp_all add: exampleEnd_def exampleRun_def remaining_def emulateBYOB_def)
  ultimately show ?thesis using h by blast
qed

lemma patchLoop_same:
  assumes "1 \<le> B1" "1 \<le> B2" "state_ok B1 s1" "state_ok B2 s2" "view s1 = view s2"
  shows "\<exists>r1 r2. patchLoop B1 N s1 = Some r1 \<and> patchLoop B2 N s2 = Some r2 \<and> seen r1 = seen r2"
proof -
  from patchLoop_view [OF assms(1,3), of N] obtain r1 where
    "patchLoop B1 N s1 = Some r1" "seen r1 = run N (view s1)" by blast
  moreover from patchLoop_view [OF assms(2,4), of N] obtain r2 where
    "patchLoop B2 N s2 = Some r2" "seen r2 = run N (view s2)" by blast
  ultimately show ?thesis using assms(5) by simp
qed

lemma sameOutcome_refl: "sameOutcome r r"
  by (simp add: sameOutcome_def split: sum.splits)

text \<open>
  C8, as the code has it. For all buffer sizes \<open>B1, B2 \<ge> 1\<close>, every decompressor, old source
  and patch, the engine returns with both buffer sizes, and either both runs end normally
  and the chunks they have yielded concatenate to the same bytes, or both throw the same
  error. What a failing run has yielded before it throws is not covered: it depends on the
  buffer size.
\<close>

theorem chunk_size_not_observable:
  assumes "1 \<le> B1" "1 \<le> B2"
  shows "\<exists>r1 r2. bspatch B1 bzip2Stream old patch = Some r1 \<and>
                 bspatch B2 bzip2Stream old patch = Some r2 \<and> sameOutcome r1 r2"
proof -
  have okp: "byob_ok (emulateBYOB patch)" by (simp add: emulateBYOB_def byob_ok_def)
  have l32: "32 \<le> length (replicate 32 (0::byte))" by simp
  from read_returns [OF okp l32]
  show ?thesis
  proof (elim disjE exE conjE)
    assume "read (emulateBYOB patch) (replicate 32 0) 0 32 = Some (Inl UnexpectedEOF)"
    then have "bspatch B bzip2Stream old patch =
      Some (Inl \<lparr>thrown = UnexpectedEOF, newPosThen = 0, yieldedThen = []\<rparr>)" for B
      by (simp add: bspatch_def readHeader_def)
    then show ?thesis by (simp add: sameOutcome_def)
  next
    fix data p1
    assume rd: "read (emulateBYOB patch) (replicate 32 0) 0 32 = Some (Inr (data, p1))"
      and ok1: "byob_ok p1"
    define h where "h = \<lparr>magic = getAsciiString data 0 8, controlSize = getInt64 data (1 * 8),
                          diffSize = getInt64 data (2 * 8), newSize = getInt64 data (3 * 8)\<rparr>"
    have rh: "readHeader (emulateBYOB patch) = Some (Inr (h, p1))"
      using rd by (simp add: readHeader_def h_def)
    show ?thesis
    proof (cases "magic h \<noteq> MAGIC \<or> controlSize h < 0 \<or> diffSize h < 0 \<or> newSize h < 0")
      case True
      then have "bspatch B bzip2Stream old patch =
        Some (Inl \<lparr>thrown = CorruptPatch, newPosThen = 0, yieldedThen = []\<rparr>)" for B
        using rh by (simp add: bspatch_def)
      then show ?thesis by (simp add: sameOutcome_def)
    next
      case good: False
      have lc: "nat (controlSize h) \<le> length (replicate (nat (controlSize h)) (0::byte))" by simp
      from read_returns [OF ok1 lc]
      show ?thesis
      proof (elim disjE exE conjE)
        assume "read p1 (replicate (nat (controlSize h)) 0) 0 (nat (controlSize h)) =
                Some (Inl UnexpectedEOF)"
        then have "bspatch B bzip2Stream old patch =
          Some (Inl \<lparr>thrown = UnexpectedEOF, newPosThen = 0, yieldedThen = []\<rparr>)" for B
          using rh good by (simp add: bspatch_def)
        then show ?thesis by (simp add: sameOutcome_def)
      next
        fix control p2
        assume rc: "read p1 (replicate (nat (controlSize h)) 0) 0 (nat (controlSize h)) =
                    Some (Inr (control, p2))" and ok2: "byob_ok p2"
        have ld: "nat (diffSize h) \<le> length (replicate (nat (diffSize h)) (0::byte))" by simp
        from read_returns [OF ok2 ld]
        show ?thesis
        proof (elim disjE exE conjE)
          assume "read p2 (replicate (nat (diffSize h)) 0) 0 (nat (diffSize h)) =
                  Some (Inl UnexpectedEOF)"
          then have "bspatch B bzip2Stream old patch =
            Some (Inl \<lparr>thrown = UnexpectedEOF, newPosThen = 0, yieldedThen = []\<rparr>)" for B
            using rh good rc by (simp add: bspatch_def)
          then show ?thesis by (simp add: sameOutcome_def)
        next
          fix diff p3
          assume rdiff: "read p2 (replicate (nat (diffSize h)) 0) 0 (nat (diffSize h)) =
                         Some (Inr (diff, p3))" and ok3: "byob_ok p3"
          define init where "init = (\<lambda>B.
            \<lparr>oldReader = emulateBYOB old,
             controlReader = getBYOBReader (bzip2Stream (typedArrayStreamReader control)),
             diffReader = getBYOBReader (bzip2Stream (typedArrayStreamReader diff)),
             extraReader = getBYOBReader (bzip2Stream p3),
             temp1 = replicate B 0, temp2 = replicate B 0,
             newPos = 0, oldPos = 0, yielded = []\<rparr>)"
          have bs: "bspatch B bzip2Stream old patch =
            (case patchLoop B (newSize h) (init B) of
               None \<Rightarrow> None
             | Some (Inl f) \<Rightarrow> Some (Inl f)
             | Some (Inr st) \<Rightarrow> Some (Inr (yielded st)))" for B
            using rh good rc rdiff by (simp add: bspatch_def init_def)
          have oki: "state_ok B (init B)" if "1 \<le> B" for B
            unfolding init_def using that ok3 by (rule initial_ok)
          have vi: "view (init B1) = view (init B2)" by (simp add: view_def init_def)
          from patchLoop_same [OF assms oki [OF assms(1)] oki [OF assms(2)] vi, of "newSize h"]
          obtain r1 r2 where r: "patchLoop B1 (newSize h) (init B1) = Some r1"
            "patchLoop B2 (newSize h) (init B2) = Some r2" "seen r1 = seen r2" by blast
          show ?thesis
          proof (cases r1)
            case (Inl f1)
            then obtain f2 where "r2 = Inl f2" "thrown f2 = thrown f1"
              using r(3) by (cases r2) (auto simp: seen_def)
            then show ?thesis using r(1,2) Inl by (simp add: bs sameOutcome_def)
          next
            case (Inr s1)
            then obtain s2 where s2: "r2 = Inr s2" "view s2 = view s1"
              using r(3) by (cases r2) (auto simp: seen_def)
            have "written (view s2) = written (view s1)" by (simp only: s2(2))
            then have "concat (yielded s2) = concat (yielded s1)" by (simp add: view_fields)
            then show ?thesis using r(1,2) Inr s2(1) by (simp add: bs sameOutcome_def)
          qed
        qed
      qed
    qed
  qed
qed

text \<open>
  A patch of one record (\<open>addSize = 6\<close>) applied with buffer sizes 1 and 4: the chunks differ,
  the bytes do not.
\<close>

theorem chunk_size_not_observable_witness:
  "(1::nat) \<le> 1 \<and> (1::nat) \<le> 4 \<and>
   (\<exists>r1 r2. bspatch 1 stored [[0x61, 0x62, 0x63, 0x64, 0x65, 0x66, 0x67]] [examplePatch] = Some r1 \<and>
            bspatch 4 stored [[0x61, 0x62, 0x63, 0x64, 0x65, 0x66, 0x67]] [examplePatch] = Some r2 \<and>
            sameOutcome r1 r2) \<and>
   bspatch 1 stored [[0x61, 0x62, 0x63, 0x64, 0x65, 0x66, 0x67]] [examplePatch] =
     Some (Inr [[0x61], [0x62], [0x63], [0x64], [0x65], [0x67]]) \<and>
   bspatch 4 stored [[0x61, 0x62, 0x63, 0x64, 0x65, 0x66, 0x67]] [examplePatch] =
     Some (Inr [[0x61, 0x62, 0x63, 0x64], [0x65, 0x67]])"
proof -
  have h: "(1::nat) \<le> 1" "(1::nat) \<le> 4" by simp_all
  have e1: "bspatch 1 stored [[0x61, 0x62, 0x63, 0x64, 0x65, 0x66, 0x67]] [examplePatch] =
     Some (Inr [[0x61], [0x62], [0x63], [0x64], [0x65], [0x67]])"
    using magic_chars by (simp add: examplePatch_def eval_defs upt_rec)
  have e4: "bspatch 4 stored [[0x61, 0x62, 0x63, 0x64, 0x65, 0x66, 0x67]] [examplePatch] =
     Some (Inr [[0x61, 0x62, 0x63, 0x64], [0x65, 0x67]])"
    using magic_chars by (simp add: examplePatch_def eval_defs upt_rec)
  from chunk_size_not_observable [OF h, of stored "[[0x61, 0x62, 0x63, 0x64, 0x65, 0x66, 0x67]]"
      "[examplePatch]"] h e1 e4
  show ?thesis by blast
qed

text \<open>
  The claim as stated fails for inputs on which the engine fails: the same patch applied
  to an old source of three bytes yields three bytes before \<^verbatim>\<open>Unexpected EOF\<close> with a buffer
  of one byte, and nothing with a buffer of four.
\<close>

theorem chunk_size_observable_on_failure:
  "bspatch 1 stored [[0x61, 0x62, 0x63]] [examplePatch] =
     Some (Inl \<lparr>thrown = Error ''Unexpected EOF'', newPosThen = 3,
                yieldedThen = [[0x61], [0x62], [0x63]]\<rparr>) \<and>
   bspatch 4 stored [[0x61, 0x62, 0x63]] [examplePatch] =
     Some (Inl \<lparr>thrown = Error ''Unexpected EOF'', newPosThen = 0, yieldedThen = []\<rparr>)"
  using magic_chars by (simp add: examplePatch_def eval_defs upt_rec)

end
